theory Spec2Isabelle
  imports Main "HOL-Library.Sublist"
begin

section \<open>ASL log records (nuclide-ios-simulator-logs, createMessage)\<close>

text \<open>
  An \<^verbatim>\<open>AslRecord\<close> as \<^verbatim>\<open>createMessage\<close> reads it: the fields \<^verbatim>\<open>Message\<close> and
  \<^verbatim>\<open>Level\<close>, both strings at run time.  The output \<^verbatim>\<open>Message\<close> has the fields
  \<^verbatim>\<open>text\<close> (here \<open>text'\<close>, since \<open>text\<close> is a keyword) and \<^verbatim>\<open>level\<close>; the output
  levels are string literals of the source.
\<close>

record AslRecord =
  Message :: string
  Level :: string

record OutputMessage =
  text' :: string
  level :: string

datatype asl_error = InvalidAslLevel string

text \<open>The \<^verbatim>\<open>switch\<close> of \<^verbatim>\<open>getLevel\<close>, case by case, the \<^verbatim>\<open>default\<close> branch throwing.\<close>

definition getLevel :: "string \<Rightarrow> asl_error + string" where
  "getLevel lv =
     (if lv = ''0'' \<or> lv = ''1'' \<or> lv = ''2'' \<or> lv = ''3'' then Inr ''error''
      else if lv = ''4'' then Inr ''warning''
      else if lv = ''5'' then Inr ''log''
      else if lv = ''6'' then Inr ''info''
      else if lv = ''7'' then Inr ''debug''
      else Inl (InvalidAslLevel (''Invalid ASL level: '' @ lv)))"

text \<open>
  The object literal of \<^verbatim>\<open>createMessage\<close> evaluates \<^verbatim>\<open>record.Message\<close> and then
  \<^verbatim>\<open>getLevel(record.Level)\<close>; an exception of the latter leaves the function.
\<close>

definition createMessage :: "AslRecord \<Rightarrow> asl_error + OutputMessage" where
  "createMessage record =
     (case getLevel (Level record) of
        Inl e \<Rightarrow> Inl e
      | Inr l \<Rightarrow> Inr \<lparr>text' = Message record, level = l\<rparr>)"


section \<open>Undeclared JSX identifiers (getUndeclaredJSXIdentifiers)\<close>

text \<open>
  A JavaScript \<^verbatim>\<open>Set\<close> is its elements in insertion order, without duplicates.
  \<^verbatim>\<open>has\<close> is membership and \<^verbatim>\<open>add\<close> appends an element that is not there yet.
\<close>

type_synonym 'a js_set = "'a list"

definition set_has :: "'a js_set \<Rightarrow> 'a \<Rightarrow> bool" where
  "set_has s x = (x \<in> set s)"

definition set_add :: "'a js_set \<Rightarrow> 'a \<Rightarrow> 'a js_set" where
  "set_add s x = (if set_has s x then s else s @ [x])"

text \<open>
  The body of the \<^verbatim>\<open>for ... of\<close> loop, and the loop over the elements of
  \<^verbatim>\<open>jsxIdentifiers\<close> with the accumulator \<^verbatim>\<open>undeclared\<close>.
\<close>

fun undeclared_loop :: "string js_set \<Rightarrow> string list \<Rightarrow> string js_set \<Rightarrow> string js_set" where
  "undeclared_loop declaredIdentifiers [] undeclared = undeclared"
| "undeclared_loop declaredIdentifiers (ident # rest) undeclared =
     undeclared_loop declaredIdentifiers rest
       (if \<not> set_has declaredIdentifiers ident then set_add undeclared ident else undeclared)"

text \<open>
  \<^verbatim>\<open>getDeclaredIdentifiers\<close> and \<^verbatim>\<open>getJSXIdentifiers\<close> are required from sibling
  modules; they are parameters here, each returning a set of identifiers.
\<close>

definition getUndeclaredJSXIdentifiers ::
  "('root \<Rightarrow> 'opts \<Rightarrow> string js_set) \<Rightarrow> ('root \<Rightarrow> string js_set) \<Rightarrow> 'root \<Rightarrow> 'opts \<Rightarrow> string js_set" where
  "getUndeclaredJSXIdentifiers getDeclaredIdentifiers getJSXIdentifiers root options =
     (let declaredIdentifiers = getDeclaredIdentifiers root options;
          jsxIdentifiers = getJSXIdentifiers root
      in undeclared_loop declaredIdentifiers jsxIdentifiers [])"


section \<open>JavaScript collections and promises\<close>

text \<open>
  A JavaScript \<^verbatim>\<open>Map\<close> is its entries in insertion order, no key twice:
  \<^verbatim>\<open>set\<close> replaces the value of a key that is present and appends a new key,
  \<^verbatim>\<open>delete\<close> removes the entry of the key.
\<close>

type_synonym ('k, 'v) js_map = "('k \<times> 'v) list"

definition jsmap_has :: "('k, 'v) js_map \<Rightarrow> 'k \<Rightarrow> bool" where
  "jsmap_has m k = (k \<in> fst ` set m)"

definition jsmap_get :: "('k, 'v) js_map \<Rightarrow> 'k \<Rightarrow> 'v option" where
  "jsmap_get m k = map_of m k"

fun jsmap_set :: "('k, 'v) js_map \<Rightarrow> 'k \<Rightarrow> 'v \<Rightarrow> ('k, 'v) js_map" where
  "jsmap_set [] k v = [(k, v)]"
| "jsmap_set ((k', v') # m) k v = (if k' = k then (k, v) # m else (k', v') # jsmap_set m k v)"

definition jsmap_delete :: "('k, 'v) js_map \<Rightarrow> 'k \<Rightarrow> ('k, 'v) js_map" where
  "jsmap_delete m k = filter (\<lambda>entry. fst entry \<noteq> k) m"

definition jsmap_values :: "('k, 'v) js_map \<Rightarrow> 'v list" where
  "jsmap_values m = map snd m"

text \<open>\<^verbatim>\<open>new Set(array)\<close> adds the elements of the array one by one.\<close>

definition new_Set :: "'a list \<Rightarrow> 'a js_set" where
  "new_Set xs = foldl set_add [] xs"

text \<open>
  A settled promise, as an \<^verbatim>\<open>await\<close> sees it, and the way a call ends: by returning
  or by throwing, in both cases with the object as the call left it.
\<close>

datatype ('e, 'a) settled = Fulfilled 'a | Rejected 'e

datatype ('e, 's) completion = Normal 's | Thrown 'e 's

fun after :: "('e, 's) completion \<Rightarrow> 's" where
  "after (Normal s) = s"
| "after (Thrown e s) = s"

text \<open>
  An error object: its message and, for the errors of a failed \<^verbatim>\<open>hg\<close> process, the
  field \<^verbatim>\<open>stdout\<close> that \<^verbatim>\<open>commit\<close> reads (absent on other errors).
\<close>

datatype js_error = JsError (message: string) (stdout: "string option")

text \<open>
  A value that is thrown, or that a promise is rejected with: \<^verbatim>\<open>null\<close>,
  \<^verbatim>\<open>undefined\<close>, or any other value.  Reading a property of \<^verbatim>\<open>null\<close> or of
  \<^verbatim>\<open>undefined\<close> throws a \<^verbatim>\<open>TypeError\<close>; of any other value it gives the property or
  \<^verbatim>\<open>undefined\<close>.
\<close>

datatype thrown = ThrownNull | ThrownUndefined | ThrownValue js_error

text \<open>
  \<^verbatim>\<open>String.prototype.indexOf\<close>: the least position at which the needle starts in
  the string, \<open>-1\<close> when there is none.
\<close>

fun indexOf_from :: "nat \<Rightarrow> string \<Rightarrow> string \<Rightarrow> int" where
  "indexOf_from i [] needle = (if needle = [] then int i else - 1)"
| "indexOf_from i (c # cs) needle =
     (if prefix needle (c # cs) then int i else indexOf_from (Suc i) cs needle)"

definition indexOf :: "string \<Rightarrow> string \<Rightarrow> int" where
  "indexOf s needle = indexOf_from 0 s needle"


section \<open>The generated service proxy (UnionTypes.proxy)\<close>



text \<open>
  A call of a method of \<^verbatim>\<open>_client\<close> either throws or returns; what it returns is
  awaited by \<^verbatim>\<open>Promise.all\<close> or by \<^verbatim>\<open>then\<close>, so it counts as the promise it
  settles to.  \<^verbatim>\<open>callRemoteFunction\<close> runs inside a \<^verbatim>\<open>then\<close> callback, where
  throwing and returning a rejected promise are the same.
\<close>

datatype ('e, 'a) outcome = Throws 'e | Returns "('e, 'a) settled"













section \<open>The diff view model (DiffViewModel)\<close>

subsection \<open>Constants and state\<close>

text \<open>
  The enumerations of \<^verbatim>\<open>./constants\<close>, with the members the class uses.  The two
  \<^verbatim>\<open>READY\<close> members are told apart by the name of their enumeration.
\<close>

datatype DiffModeType = BROWSE_MODE | COMMIT_MODE | PUBLISH_MODE

datatype CommitModeType = COMMIT | AMEND

datatype CommitModeStateType = CommitModeState_READY | LOADING_COMMIT_MESSAGE | AWAITING_COMMIT

datatype PublishModeType = CREATE | UPDATE

datatype PublishModeStateType = PublishModeState_READY | LOADING_PUBLISH_MESSAGE | AWAITING_PUBLISH

definition ACTIVE_FILE_UPDATE_EVENT :: string where
  "ACTIVE_FILE_UPDATE_EVENT = ''active-file-update''"

definition CHANGE_REVISIONS_EVENT :: string where
  "CHANGE_REVISIONS_EVENT = ''did-change-revisions''"

definition DID_UPDATE_STATE_EVENT :: string where
  "DID_UPDATE_STATE_EVENT = ''did-update-state''"

definition UPDATE_REVISION_TEMPLATE :: string where
  "UPDATE_REVISION_TEMPLATE = []"

type_synonym NuclideUri = string

type_synonym FileChangeStatusValue = nat

type_synonym FileChanges = "(NuclideUri, FileChangeStatusValue) js_map"

text \<open>The fields of \<^verbatim>\<open>RevisionInfo\<close> and \<^verbatim>\<open>RevisionsState\<close> that the class reads.\<close>

record RevisionInfo =
  hash :: string
  bookmarks :: "string list"
  description :: string

record RevisionsState =
  revisions :: "RevisionInfo list"

text \<open>The type \<^verbatim>\<open>State\<close>; \<open>None\<close> is \<^verbatim>\<open>null\<close> or \<^verbatim>\<open>undefined\<close>.\<close>

record State =
  viewMode :: DiffModeType
  commitMessage :: "string option"
  commitMode :: CommitModeType
  commitModeState :: CommitModeStateType
  publishMessage :: "string option"
  publishMode :: PublishModeType
  publishModeState :: PublishModeStateType
  headRevision :: "RevisionInfo option"
  dirtyFileChanges :: FileChanges
  commitMergeFileChanges :: FileChanges
  compareFileChanges :: FileChanges

subsection \<open>Repositories, stacks and the object\<close>

text \<open>
  A repository object is known by its identity and answers \<^verbatim>\<open>getType()\<close>.  A
  \<^verbatim>\<open>RepositoryStack\<close> is created by \<^verbatim>\<open>new RepositoryStack(repository)\<close>; it is known
  by its identity, the number of stacks created before it, and keeps its repository.
  The \<^verbatim>\<open>CompositeDisposable\<close> of a stack holds the three listeners registered on it.
\<close>

record Repository =
  repoId :: nat
  getType :: string

record RepositoryStack =
  stackId :: nat
  stackRepository :: Repository

record CompositeDisposable =
  listenersOf :: RepositoryStack

text \<open>
  What the class does to its collaborators, in the order it does it: events of its
  emitter, calls on repository stacks and subscriptions, notifications.
\<close>

datatype effect =
    Emit string
  | EmitRevisions string RevisionsState
  | StackCreate RepositoryStack
  | StackActivate RepositoryStack
  | StackDeactivate RepositoryStack
  | StackDispose RepositoryStack
  | SubscriptionsDispose CompositeDisposable
  | StackGetTemplateCommitMessage RepositoryStack
  | StackGetCachedRevisionsStatePromise RepositoryStack
  | StackCommit RepositoryStack string
  | StackAmend RepositoryStack string
  | StackGetRevisionsStatePromise RepositoryStack
  | AddSuccess string
  | AddError string string
  | NotifyInternalError js_error

text \<open>
  The fields of the object that the modelled methods use (a leading underscore of the
  source is written \<open>u_\<close>), the trace of effects, and the number of stacks created.
\<close>

record DiffViewModel =
  u_repositoryStacks :: "(Repository, RepositoryStack) js_map"
  u_repositorySubscriptions :: "(Repository, CompositeDisposable) js_map"
  u_activeRepositoryStack :: "RepositoryStack option"
  u_isActive :: bool
  u_state :: State
  effects :: "effect list"
  allocated :: nat

text \<open>
  What the surroundings answer during one synchronous run: the repositories of the
  project (\<open>None\<close> for a directory without one), the file changes each stack reports,
  and \<^verbatim>\<open>map.union\<close> of the commons package.
\<close>

record Env =
  project_getRepositories :: "Repository option list"
  stack_getDirtyFileChanges :: "RepositoryStack \<Rightarrow> FileChanges"
  stack_getCommitMergeFileChanges :: "RepositoryStack \<Rightarrow> FileChanges"
  map_union :: "FileChanges list \<Rightarrow> FileChanges"

definition perform :: "effect \<Rightarrow> DiffViewModel \<Rightarrow> DiffViewModel" where
  "perform e vm = vm\<lparr>effects := effects vm @ [e]\<rparr>"

subsection \<open>State updates\<close>

definition u_setState :: "State \<Rightarrow> DiffViewModel \<Rightarrow> DiffViewModel" where
  "u_setState newState vm = perform (Emit DID_UPDATE_STATE_EVENT) (vm\<lparr>u_state := newState\<rparr>)"

definition u_updateCompareChangedStatus ::
  "FileChanges option \<Rightarrow> FileChanges option \<Rightarrow> DiffViewModel \<Rightarrow> DiffViewModel" where
  "u_updateCompareChangedStatus dirtyArg commitMergeArg vm =
     (let dirty = (case dirtyArg of None \<Rightarrow> dirtyFileChanges (u_state vm) | Some d \<Rightarrow> d);
          commitMerge =
            (case commitMergeArg of None \<Rightarrow> commitMergeFileChanges (u_state vm) | Some c \<Rightarrow> c);
          compare = (if viewMode (u_state vm) = COMMIT_MODE then dirty else commitMerge)
      in u_setState ((u_state vm)\<lparr>dirtyFileChanges := dirty,
                                  commitMergeFileChanges := commitMerge,
                                  compareFileChanges := compare\<rparr>) vm)"

definition u_updateDirtyChangedStatus :: "Env \<Rightarrow> DiffViewModel \<Rightarrow> DiffViewModel" where
  "u_updateDirtyChangedStatus env vm =
     (let dirty = map_union env
            (map (stack_getDirtyFileChanges env) (jsmap_values (u_repositoryStacks vm)))
      in u_updateCompareChangedStatus (Some dirty) None vm)"

definition u_updateCommitMergeFileChanges :: "Env \<Rightarrow> DiffViewModel \<Rightarrow> DiffViewModel" where
  "u_updateCommitMergeFileChanges env vm =
     (let commitMerge = map_union env
            (map (stack_getCommitMergeFileChanges env) (jsmap_values (u_repositoryStacks vm)))
      in u_updateCompareChangedStatus None (Some commitMerge) vm)"

definition setPublishMessage :: "string \<Rightarrow> DiffViewModel \<Rightarrow> DiffViewModel" where
  "setPublishMessage msg vm = u_setState ((u_state vm)\<lparr>publishMessage := Some msg\<rparr>) vm"


subsection \<open>Repository stacks\<close>

text \<open>
  \<^verbatim>\<open>_createRepositoryStack\<close>: a new stack, the subscriptions to its three events,
  both maps updated, and the stack activated when the model is active.
\<close>

definition u_createRepositoryStack ::
  "Repository \<Rightarrow> DiffViewModel \<Rightarrow> RepositoryStack \<times> DiffViewModel" where
  "u_createRepositoryStack repository vm =
     (let repositoryStack = \<lparr>stackId = allocated vm, stackRepository = repository\<rparr>;
          vm1 = perform (StackCreate repositoryStack) (vm\<lparr>allocated := Suc (allocated vm)\<rparr>);
          subscriptions = \<lparr>listenersOf = repositoryStack\<rparr>;
          vm2 = vm1\<lparr>u_repositoryStacks :=
                      jsmap_set (u_repositoryStacks vm1) repository repositoryStack\<rparr>;
          vm3 = vm2\<lparr>u_repositorySubscriptions :=
                      jsmap_set (u_repositorySubscriptions vm2) repository subscriptions\<rparr>;
          vm4 = (if u_isActive vm3 then perform (StackActivate repositoryStack) vm3 else vm3)
      in (repositoryStack, vm4))"

text \<open>
  The repositories of the project that are not \<^verbatim>\<open>null\<close> and of type \<^verbatim>\<open>hg\<close>, as a
  \<^verbatim>\<open>Set\<close>.
\<close>

definition hgRepositories :: "Env \<Rightarrow> Repository js_set" where
  "hgRepositories env =
     new_Set (concat (map (\<lambda>r. case r of None \<Rightarrow> []
                                   | Some repository \<Rightarrow>
                                       if getType repository = ''hg'' then [repository] else [])
                          (project_getRepositories env)))"

text \<open>
  The first loop of \<^verbatim>\<open>_updateRepositories\<close>, over the entries of
  \<^verbatim>\<open>_repositoryStacks\<close>.  An entry whose repository is gone is disposed and deleted
  with its subscriptions; \<^verbatim>\<open>invariant(subscriptions)\<close> throws when there are none.
  Deleting the entry being visited leaves the entries still to visit as they are.
\<close>

fun disposeRemoved ::
  "Repository js_set \<Rightarrow> (Repository \<times> RepositoryStack) list \<Rightarrow> DiffViewModel
     \<Rightarrow> (js_error, DiffViewModel) completion" where
  "disposeRemoved repositories [] vm = Normal vm"
| "disposeRemoved repositories ((repository, repositoryStack) # entries) vm =
     (if set_has repositories repository then disposeRemoved repositories entries vm
      else
        let vm1 = perform (StackDispose repositoryStack) vm;
            vm2 = vm1\<lparr>u_repositoryStacks := jsmap_delete (u_repositoryStacks vm1) repository\<rparr>
        in (case jsmap_get (u_repositorySubscriptions vm2) repository of
              None \<Rightarrow> Thrown (JsError ''AssertionError'' None) vm2
            | Some subscriptions \<Rightarrow>
                let vm3 = perform (SubscriptionsDispose subscriptions) vm2;
                    vm4 = vm3\<lparr>u_repositorySubscriptions :=
                                jsmap_delete (u_repositorySubscriptions vm3) repository\<rparr>
                in disposeRemoved repositories entries vm4))"

text \<open>The second loop, over the set of repositories.\<close>

fun createMissing :: "Repository list \<Rightarrow> DiffViewModel \<Rightarrow> DiffViewModel" where
  "createMissing [] vm = vm"
| "createMissing (repository # rest) vm =
     (if jsmap_has (u_repositoryStacks vm) repository then createMissing rest vm
      else createMissing rest (snd (u_createRepositoryStack repository vm)))"

definition u_updateRepositories ::
  "Env \<Rightarrow> DiffViewModel \<Rightarrow> (js_error, DiffViewModel) completion" where
  "u_updateRepositories env vm =
     (let repositories = hgRepositories env
      in case disposeRemoved repositories (u_repositoryStacks vm) vm of
           Thrown e vm1 \<Rightarrow> Thrown e vm1
         | Normal vm1 \<Rightarrow> Normal (u_updateDirtyChangedStatus env (createMissing repositories vm1)))"

text \<open>
  The constructor, as far as these fields go: the initial state, then
  \<^verbatim>\<open>_updateRepositories\<close>.
\<close>

definition initialState :: State where
  "initialState =
     \<lparr>viewMode = BROWSE_MODE, commitMessage = None, commitMode = COMMIT,
      commitModeState = CommitModeState_READY, publishMessage = None, publishMode = CREATE,
      publishModeState = PublishModeState_READY, headRevision = None,
      dirtyFileChanges = [], commitMergeFileChanges = [], compareFileChanges = []\<rparr>"

definition constructor :: "Env \<Rightarrow> (js_error, DiffViewModel) completion" where
  "constructor env =
     u_updateRepositories env
       \<lparr>u_repositoryStacks = [], u_repositorySubscriptions = [], u_activeRepositoryStack = None,
        u_isActive = False, u_state = initialState, effects = [], allocated = 0\<rparr>"

fun performAll :: "effect list \<Rightarrow> DiffViewModel \<Rightarrow> DiffViewModel" where
  "performAll [] vm = vm"
| "performAll (e # rest) vm = performAll rest (perform e vm)"

definition activate :: "Env \<Rightarrow> DiffViewModel \<Rightarrow> (js_error, DiffViewModel) completion" where
  "activate env vm =
     (case u_updateRepositories env vm of
        Thrown e vm1 \<Rightarrow> Thrown e vm1
      | Normal vm1 \<Rightarrow>
          (let vm2 = vm1\<lparr>u_isActive := True\<rparr>
           in Normal (performAll (map StackActivate (jsmap_values (u_repositoryStacks vm2))) vm2)))"

definition deactivate :: "DiffViewModel \<Rightarrow> DiffViewModel" where
  "deactivate vm =
     (let vm1 = vm\<lparr>u_isActive := False\<rparr>
      in case u_activeRepositoryStack vm1 of
           None \<Rightarrow> vm1
         | Some activeStack \<Rightarrow>
             (perform (StackDeactivate activeStack) vm1)\<lparr>u_activeRepositoryStack := None\<rparr>)"

definition dispose :: "DiffViewModel \<Rightarrow> DiffViewModel" where
  "dispose vm =
     (let vm1 = performAll (map StackDispose (jsmap_values (u_repositoryStacks vm))) vm;
          vm2 = vm1\<lparr>u_repositoryStacks := []\<rparr>;
          vm3 = performAll
                  (map SubscriptionsDispose (jsmap_values (u_repositorySubscriptions vm2))) vm2
      in vm3\<lparr>u_repositorySubscriptions := []\<rparr>)"


subsection \<open>Asynchronous methods\<close>

text \<open>
  An \<^verbatim>\<open>async\<close> method runs synchronously up to its first \<^verbatim>\<open>await\<close>: its start
  either finishes the method or suspends it, with what the rest needs.  The rest
  runs later, from the settled promise and from the object as it is then.  The
  whole method takes the settled promise and \<open>during\<close>, what other code did to the
  object while the method was suspended.
\<close>

datatype ('p, 's) run = Done 's | Suspended 'p 's

text \<open>
  \<^verbatim>\<open>convertNewlines\<close>: every backslash followed by \<^verbatim>\<open>n\<close> becomes a newline.
\<close>

fun convertNewlines :: "string \<Rightarrow> string" where
  "convertNewlines (c # d # rest) =
     (if c = CHR 0x5C \<and> d = CHR ''n'' then CHR 0x0A # convertNewlines rest
      else c # convertNewlines (d # rest))"
| "convertNewlines cs = cs"

text \<open>
  \<^verbatim>\<open>getActiveRevisionsState\<close>: \<^verbatim>\<open>null\<close> without an active stack, else the cached
  revisions state of the stack, the promise \<open>cached\<close>.
\<close>

definition getActiveRevisionsState ::
  "(js_error, RevisionsState option) settled \<Rightarrow> DiffViewModel
     \<Rightarrow> (js_error, RevisionsState option) settled \<times> DiffViewModel" where
  "getActiveRevisionsState cached vm =
     (case u_activeRepositoryStack vm of
        None \<Rightarrow> (Fulfilled None, vm)
      | Some activeStack \<Rightarrow> (cached, perform (StackGetCachedRevisionsStatePromise activeStack) vm))"

definition u_loadActiveRepositoryLatestCommitMessage ::
  "(js_error, RevisionsState option) settled \<Rightarrow> DiffViewModel
     \<Rightarrow> (js_error, string option) settled \<times> DiffViewModel" where
  "u_loadActiveRepositoryLatestCommitMessage cached vm =
     (if u_activeRepositoryStack vm = None
      then (Rejected (JsError ''Diff View: No active file or repository open'' None), vm)
      else case getActiveRevisionsState cached vm of
             (Rejected e, vm1) \<Rightarrow> (Rejected e, vm1)
           | (Fulfilled None, vm1) \<Rightarrow>
               (Rejected (JsError ''Diff View Internal Error: revisionsState cannot be null'' None),
                vm1)
           | (Fulfilled (Some revisionsState), vm1) \<Rightarrow>
               (let revs = revisions revisionsState
                in if length revs > 0
                   then (Fulfilled (Some (description (revs ! (length revs - 1)))), vm1)
                   else (Rejected (JsError ''Diff View Error: Cannot amend non-existing commit''
                                     None), vm1)))"

text \<open>
  \<^verbatim>\<open>_loadCommitModeState\<close>.  In commit mode \<^verbatim>\<open>COMMIT\<close> without an active stack the
  template loader throws before anything is awaited, and the method finishes at once.
\<close>

datatype commitMessageSource = TemplateCommitMessage | LatestCommitMessage

definition u_loadCommitModeState_finally :: "string option \<Rightarrow> DiffViewModel \<Rightarrow> DiffViewModel" where
  "u_loadCommitModeState_finally commitMessage' vm =
     u_setState ((u_state vm)\<lparr>commitMessage := commitMessage',
                              commitModeState := CommitModeState_READY\<rparr>) vm"

definition u_loadCommitModeState_start ::
  "(js_error, RevisionsState option) settled \<Rightarrow> DiffViewModel
     \<Rightarrow> (commitMessageSource \<times> (js_error, string option) settled option, DiffViewModel) run" where
  "u_loadCommitModeState_start cached vm =
     (let vm1 = u_setState ((u_state vm)\<lparr>commitModeState := LOADING_COMMIT_MESSAGE\<rparr>) vm
      in if commitMode (u_state vm1) = COMMIT
         then (case u_activeRepositoryStack vm1 of
                 None \<Rightarrow>
                   Done (u_loadCommitModeState_finally None
                     (perform (NotifyInternalError
                        (JsError ''Diff View: No active file or repository open'' None)) vm1))
               | Some activeStack \<Rightarrow>
                   Suspended (TemplateCommitMessage, None)
                     (perform (StackGetTemplateCommitMessage activeStack) vm1))
         else (case u_loadActiveRepositoryLatestCommitMessage cached vm1 of
                 (latest, vm2) \<Rightarrow> Suspended (LatestCommitMessage, Some latest) vm2))"

definition u_loadCommitModeState_resume ::
  "commitMessageSource \<Rightarrow> (js_error, string option) settled \<Rightarrow> DiffViewModel \<Rightarrow> DiffViewModel" where
  "u_loadCommitModeState_resume source loaded vm =
     (case loaded of
        Rejected error \<Rightarrow> u_loadCommitModeState_finally None (perform (NotifyInternalError error) vm)
      | Fulfilled loadedMessage \<Rightarrow>
          (case source of
             TemplateCommitMessage \<Rightarrow>
               u_loadCommitModeState_finally (map_option convertNewlines loadedMessage) vm
           | LatestCommitMessage \<Rightarrow> u_loadCommitModeState_finally loadedMessage vm))"

definition u_loadCommitModeState ::
  "(js_error, string option) settled \<Rightarrow> (js_error, RevisionsState option) settled
     \<Rightarrow> (DiffViewModel \<Rightarrow> DiffViewModel) \<Rightarrow> DiffViewModel \<Rightarrow> DiffViewModel" where
  "u_loadCommitModeState template cached during vm =
     (case u_loadCommitModeState_start cached vm of
        Done vm1 \<Rightarrow> vm1
      | Suspended (source, latest) vm1 \<Rightarrow>
          u_loadCommitModeState_resume source
            (case latest of None \<Rightarrow> template | Some l \<Rightarrow> l) (during vm1))"

text \<open>\<^verbatim>\<open>_loadPublishModeState\<close>: the state is reset, the revisions are awaited.\<close>

definition u_loadPublishModeState_start ::
  "(js_error, RevisionsState option) settled \<Rightarrow> DiffViewModel
     \<Rightarrow> ((js_error, RevisionsState option) settled, DiffViewModel) run" where
  "u_loadPublishModeState_start cached vm =
     (let vm1 = u_setState ((u_state vm)\<lparr>publishMode := CREATE,
                                        publishModeState := LOADING_PUBLISH_MESSAGE,
                                        publishMessage := None,
                                        headRevision := None\<rparr>) vm
      in case getActiveRevisionsState cached vm1 of
           (awaited, vm2) \<Rightarrow> Suspended awaited vm2)"

definition u_loadPublishModeState_resume ::
  "(js_error, RevisionsState option) settled \<Rightarrow> DiffViewModel
     \<Rightarrow> (js_error, unit) settled \<times> DiffViewModel" where
  "u_loadPublishModeState_resume awaited vm =
     (case awaited of
        Rejected e \<Rightarrow> (Rejected e, vm)
      | Fulfilled None \<Rightarrow>
          (Rejected (JsError ''Cannot Load Publish View: No active file or repository'' None), vm)
      | Fulfilled (Some revisionsState) \<Rightarrow>
          (let revs = revisions revisionsState
           in if \<not> length revs > 0
              then (Rejected (JsError ''Diff View Error: Zero Revisions'' None), vm)
              else
                let headRevision' = revs ! (length revs - 1);
                    headMessage = description headRevision';
                    hasPhabricatorRevision = (indexOf headMessage ''Differential Revision:'' \<noteq> - 1)
                in (Fulfilled (),
                    u_setState ((u_state vm)\<lparr>
                        publishMode := (if hasPhabricatorRevision then UPDATE else CREATE),
                        publishModeState := PublishModeState_READY,
                        publishMessage := Some (if hasPhabricatorRevision
                                                then UPDATE_REVISION_TEMPLATE else headMessage),
                        headRevision := Some headRevision'\<rparr>) vm)))"

definition u_loadPublishModeState ::
  "(js_error, RevisionsState option) settled \<Rightarrow> (DiffViewModel \<Rightarrow> DiffViewModel) \<Rightarrow> DiffViewModel
     \<Rightarrow> (js_error, unit) settled \<times> DiffViewModel" where
  "u_loadPublishModeState cached during vm =
     (case u_loadPublishModeState_start cached vm of
        Done vm1 \<Rightarrow> (Fulfilled (), vm1)
      | Suspended awaited vm1 \<Rightarrow> u_loadPublishModeState_resume awaited (during vm1))"

text \<open>
  \<^verbatim>\<open>_loadModeState\<close> starts the loader of the view mode; a rejection of the publish
  loader goes to \<^verbatim>\<open>notifyInternalError\<close>.  \<^verbatim>\<open>setViewMode\<close>, \<^verbatim>\<open>setCommitMode\<close> and
  \<^verbatim>\<open>_onUpdateRevisionsState\<close> return when the loader they start is suspended.
\<close>

fun started :: "('p, 's) run \<Rightarrow> 's" where
  "started (Done s) = s"
| "started (Suspended p s) = s"

definition u_loadModeState ::
  "(js_error, RevisionsState option) settled \<Rightarrow> DiffViewModel \<Rightarrow> DiffViewModel" where
  "u_loadModeState cached vm =
     (case viewMode (u_state vm) of
        COMMIT_MODE \<Rightarrow> started (u_loadCommitModeState_start cached vm)
      | PUBLISH_MODE \<Rightarrow> started (u_loadPublishModeState_start cached vm)
      | BROWSE_MODE \<Rightarrow> vm)"

definition u_loadModeState_publishSettled ::
  "(js_error, RevisionsState option) settled \<Rightarrow> DiffViewModel \<Rightarrow> DiffViewModel" where
  "u_loadModeState_publishSettled awaited vm =
     (case u_loadPublishModeState_resume awaited vm of
        (Rejected e, vm1) \<Rightarrow> perform (NotifyInternalError e) vm1
      | (Fulfilled u, vm1) \<Rightarrow> vm1)"

definition setViewMode ::
  "(js_error, RevisionsState option) settled \<Rightarrow> DiffModeType \<Rightarrow> DiffViewModel \<Rightarrow> DiffViewModel" where
  "setViewMode cached viewMode' vm =
     (if viewMode' = viewMode (u_state vm) then vm
      else
        let vm1 = u_setState ((u_state vm)\<lparr>viewMode := viewMode'\<rparr>) vm;
            vm2 = u_updateCompareChangedStatus None None vm1
        in u_loadModeState cached vm2)"

definition setCommitMode ::
  "(js_error, RevisionsState option) settled \<Rightarrow> CommitModeType \<Rightarrow> DiffViewModel \<Rightarrow> DiffViewModel" where
  "setCommitMode cached commitMode' vm =
     started (u_loadCommitModeState_start cached
       (u_setState ((u_state vm)\<lparr>commitMode := commitMode'\<rparr>) vm))"

definition u_onUpdateRevisionsState ::
  "(js_error, RevisionsState option) settled \<Rightarrow> RevisionsState \<Rightarrow> DiffViewModel \<Rightarrow> DiffViewModel" where
  "u_onUpdateRevisionsState cached revisionsState vm =
     u_loadModeState cached (perform (EmitRevisions CHANGE_REVISIONS_EVENT revisionsState) vm)"

text \<open>
  \<^verbatim>\<open>publishDiff\<close>: the timer \<^verbatim>\<open>awaitMilliSeconds(5000)\<close> is awaited, then a resolved
  promise; \<^verbatim>\<open>finally\<close> runs on both paths.  The decorator \<^verbatim>\<open>trackTiming\<close> and the
  calls of \<^verbatim>\<open>track\<close> only report to analytics; they are left out, here and in the
  other methods.
\<close>

definition publishDiff_start :: "string \<Rightarrow> DiffViewModel \<Rightarrow> DiffViewModel" where
  "publishDiff_start publishMessage' vm =
     u_setState ((u_state vm)\<lparr>publishMessage := Some publishMessage',
                              publishModeState := AWAITING_PUBLISH\<rparr>) vm"

definition publishDiff_finally :: "string \<Rightarrow> DiffViewModel \<Rightarrow> DiffViewModel" where
  "publishDiff_finally publishMessage' vm =
     u_setState ((u_state vm)\<lparr>publishMessage := Some publishMessage',
                              publishModeState := PublishModeState_READY\<rparr>) vm"

definition publishDiff ::
  "string \<Rightarrow> (js_error, unit) settled \<Rightarrow> (DiffViewModel \<Rightarrow> DiffViewModel)
     \<Rightarrow> (DiffViewModel \<Rightarrow> DiffViewModel) \<Rightarrow> DiffViewModel
     \<Rightarrow> (js_error, unit) settled \<times> DiffViewModel" where
  "publishDiff publishMessage' timer during1 during2 vm =
     (let vm1 = during1 (publishDiff_start publishMessage' vm)
      in case timer of
           Fulfilled u \<Rightarrow> (Fulfilled (), publishDiff_finally publishMessage' (during2 vm1))
         | Rejected error \<Rightarrow>
             (Fulfilled (),
              publishDiff_finally publishMessage' (perform (NotifyInternalError error) vm1)))"

text \<open>
  \<^verbatim>\<open>commit\<close>: \<open>committed\<close> is the settled promise of \<^verbatim>\<open>activeStack.commit(message)\<close>
  or \<^verbatim>\<open>activeStack.amend(message)\<close>.  Without an active stack \<^verbatim>\<open>invariant\<close> throws
  an assertion error inside the \<^verbatim>\<open>try\<close>.

  The \<^verbatim>\<open>catch\<close> block first builds the detail of the notification from the
  template string with \<^verbatim>\<open>e.stdout\<close>.  For \<^verbatim>\<open>null\<close> and \<^verbatim>\<open>undefined\<close> reading
  \<^verbatim>\<open>e.stdout\<close> throws: the block ends there, before \<^verbatim>\<open>addError\<close> and
  \<^verbatim>\<open>_setState\<close>, and the exception leaves \<^verbatim>\<open>commit\<close>.  For any other value an
  absent \<^verbatim>\<open>stdout\<close> reads \<^verbatim>\<open>undefined\<close> in the template string.
\<close>

definition commit_catch ::
  "thrown \<Rightarrow> DiffViewModel \<Rightarrow> (js_error, DiffViewModel) completion" where
  "commit_catch e vm =
     (case e of
        ThrownNull \<Rightarrow>
          Thrown (JsError ''TypeError: Cannot read property stdout of null'' None) vm
      | ThrownUndefined \<Rightarrow>
          Thrown (JsError ''TypeError: Cannot read property stdout of undefined'' None) vm
      | ThrownValue error \<Rightarrow>
          (let vm1 = perform (AddError ''Error creating commit''
                       (''Details: '' @ (case stdout error of None \<Rightarrow> ''undefined''
                                                            | Some out \<Rightarrow> out))) vm
           in Normal (u_setState ((u_state vm1)\<lparr>commitModeState := CommitModeState_READY\<rparr>)
                        vm1)))"

text \<open>
  The synchronous start of \<^verbatim>\<open>commit\<close> either ends the method, in the way the
  \<^verbatim>\<open>catch\<close> block ended, or suspends it at the \<^verbatim>\<open>await\<close> of the stack operation.
\<close>

datatype commit_run =
    CommitEnded "(js_error, DiffViewModel) completion"
  | CommitSuspended RepositoryStack CommitModeType DiffViewModel

fun commit_started :: "commit_run \<Rightarrow> DiffViewModel" where
  "commit_started (CommitEnded c) = after c"
| "commit_started (CommitSuspended activeStack mode vm) = vm"

definition commit_start :: "string \<Rightarrow> DiffViewModel \<Rightarrow> commit_run" where
  "commit_start message' vm =
     (let vm1 = u_setState ((u_state vm)\<lparr>commitMessage := Some message',
                                        commitModeState := AWAITING_COMMIT\<rparr>) vm
      in case u_activeRepositoryStack vm1 of
           None \<Rightarrow>
             CommitEnded
               (commit_catch (ThrownValue (JsError ''No active repository stack'' None)) vm1)
         | Some activeStack \<Rightarrow>
             (case commitMode (u_state vm1) of
                COMMIT \<Rightarrow> CommitSuspended activeStack COMMIT
                            (perform (StackCommit activeStack message') vm1)
              | AMEND \<Rightarrow> CommitSuspended activeStack AMEND
                            (perform (StackAmend activeStack message') vm1)))"

definition commit_resume ::
  "RepositoryStack \<Rightarrow> CommitModeType \<Rightarrow> (thrown, unit) settled \<Rightarrow> DiffViewModel
     \<Rightarrow> (js_error, DiffViewModel) completion" where
  "commit_resume activeStack mode committed vm =
     (case committed of
        Rejected e \<Rightarrow> commit_catch e vm
      | Fulfilled u \<Rightarrow>
          (let vm1 = perform (AddSuccess (case mode of COMMIT \<Rightarrow> ''Commit created''
                                                     | AMEND \<Rightarrow> ''Commit amended'')) vm
           in Normal (perform (StackGetRevisionsStatePromise activeStack) vm1)))"




text \<open>
  \<^verbatim>\<open>_setActiveRepositoryStack\<close> and \<^verbatim>\<open>_updateChangedRevisions\<close>, through which
  opening a file reaches the state: the first one makes the stack the active one and
  awaits its cached revisions, the second one takes revisions of the active stack
  only.  What they do to the active file is not part of this model.
\<close>

definition u_setActiveRepositoryStack_start ::
  "RepositoryStack \<Rightarrow> DiffViewModel \<Rightarrow> (unit, DiffViewModel) run" where
  "u_setActiveRepositoryStack_start repositoryStack vm =
     (if u_activeRepositoryStack vm = Some repositoryStack then Done vm
      else Suspended ()
             (perform (StackGetCachedRevisionsStatePromise repositoryStack)
                (vm\<lparr>u_activeRepositoryStack := Some repositoryStack\<rparr>)))"

definition u_updateChangedRevisions ::
  "(js_error, RevisionsState option) settled \<Rightarrow> RepositoryStack \<Rightarrow> RevisionsState
     \<Rightarrow> DiffViewModel \<Rightarrow> DiffViewModel" where
  "u_updateChangedRevisions cached repositoryStack revisionsState vm =
     (if Some repositoryStack \<noteq> u_activeRepositoryStack vm then vm
      else u_onUpdateRevisionsState cached revisionsState vm)"

subsection \<open>The states of the object\<close>

text \<open>
  The object after its constructor and after any number of synchronous runs of its
  methods and of the rests of its suspended methods, in any order and with any
  answers of the surroundings.
\<close>

inductive reachable :: "DiffViewModel \<Rightarrow> bool" where
  constructed: "constructor env = Normal vm \<Longrightarrow> reachable vm"
| updateRepositories: "reachable vm \<Longrightarrow> reachable (after (u_updateRepositories env vm))"
| updateDirtyChangedStatus: "reachable vm \<Longrightarrow> reachable (u_updateDirtyChangedStatus env vm)"
| updateCommitMergeFileChanges:
    "reachable vm \<Longrightarrow> reachable (u_updateCommitMergeFileChanges env vm)"
| setPublishMessage: "reachable vm \<Longrightarrow> reachable (setPublishMessage msg vm)"
| setViewMode: "reachable vm \<Longrightarrow> reachable (setViewMode cached mode vm)"
| setCommitMode: "reachable vm \<Longrightarrow> reachable (setCommitMode cached cmode vm)"
| setActiveRepositoryStack:
    "reachable vm \<Longrightarrow> reachable (started (u_setActiveRepositoryStack_start repositoryStack vm))"
| updateChangedRevisions:
    "reachable vm \<Longrightarrow> reachable (u_updateChangedRevisions cached repositoryStack revisionsState vm)"
| loadCommitModeState_resume:
    "reachable vm \<Longrightarrow> reachable (u_loadCommitModeState_resume source loaded vm)"
| loadPublishModeState_settled:
    "reachable vm \<Longrightarrow> reachable (u_loadModeState_publishSettled awaited vm)"
| publishDiff_start: "reachable vm \<Longrightarrow> reachable (publishDiff_start msg vm)"
| publishDiff_caught: "reachable vm \<Longrightarrow> reachable (perform (NotifyInternalError e) vm)"
| publishDiff_finally: "reachable vm \<Longrightarrow> reachable (publishDiff_finally msg vm)"
| commit_start: "reachable vm \<Longrightarrow> reachable (commit_started (commit_start msg vm))"
| commit_resume:
    "reachable vm \<Longrightarrow> reachable (after (commit_resume activeStack cmode committed vm))"
| activate: "reachable vm \<Longrightarrow> reachable (after (activate env vm))"
| deactivate: "reachable vm \<Longrightarrow> reachable (deactivate vm)"
| dispose: "reachable vm \<Longrightarrow> reachable (dispose vm)"

text \<open>
  The relation between the three maps of file changes: the compared ones are the
  dirty ones in commit mode and the ones of the commit merge in every other mode.
\<close>

definition compareInvariant :: "State \<Rightarrow> bool" where
  "compareInvariant s =
     (compareFileChanges s =
        (if viewMode s = COMMIT_MODE then dirtyFileChanges s else commitMergeFileChanges s))"


subsection \<open>Reading the trace, and the two maps as maps\<close>

text \<open>
  The stacks created, the stacks disposed and the subscriptions disposed in a trace,
  in the order of the trace and as often as the trace has them.
\<close>

fun createdStacks :: "effect list \<Rightarrow> RepositoryStack list" where
  "createdStacks [] = []"
| "createdStacks (StackCreate repositoryStack # es) = repositoryStack # createdStacks es"
| "createdStacks (e # es) = createdStacks es"

fun disposedStacks :: "effect list \<Rightarrow> RepositoryStack list" where
  "disposedStacks [] = []"
| "disposedStacks (StackDispose repositoryStack # es) = repositoryStack # disposedStacks es"
| "disposedStacks (e # es) = disposedStacks es"

fun disposedSubscriptions :: "effect list \<Rightarrow> CompositeDisposable list" where
  "disposedSubscriptions [] = []"
| "disposedSubscriptions (SubscriptionsDispose subscriptions # es) =
     subscriptions # disposedSubscriptions es"
| "disposedSubscriptions (e # es) = disposedSubscriptions es"

text \<open>
  \<^verbatim>\<open>_repositoryStacks\<close> and \<^verbatim>\<open>_repositorySubscriptions\<close> are \<^verbatim>\<open>Map\<close>s, so no key
  occurs twice in either, and the class keeps them on the same keys.
\<close>

definition stacksWellFormed :: "DiffViewModel \<Rightarrow> bool" where
  "stacksWellFormed vm =
     (distinct (map fst (u_repositoryStacks vm))
      \<and> distinct (map fst (u_repositorySubscriptions vm))
      \<and> fst ` set (u_repositoryStacks vm) = fst ` set (u_repositorySubscriptions vm))"


text \<open>Two objects with the same two maps.\<close>

definition sameMaps :: "DiffViewModel \<Rightarrow> DiffViewModel \<Rightarrow> bool" where
  "sameMaps vm' vm = (u_repositoryStacks vm' = u_repositoryStacks vm
     \<and> u_repositorySubscriptions vm' = u_repositorySubscriptions vm)"

text \<open>A repository that the project reports now and that is of type \<^verbatim>\<open>hg\<close>.\<close>

definition projectHgRepository :: "Env \<Rightarrow> Repository \<Rightarrow> bool" where
  "projectHgRepository env r = (Some r \<in> set (project_getRepositories env) \<and> getType r = ''hg'')"


text \<open>
  The effects of the first loop of \<^verbatim>\<open>_updateRepositories\<close> for the entries it removes:
  each stack is disposed, then its subscriptions are.
\<close>

definition disposals ::
  "(Repository, CompositeDisposable) js_map \<Rightarrow> (Repository \<times> RepositoryStack) list \<Rightarrow> effect list" where
  "disposals subs es =
     concat (map (\<lambda>en. [StackDispose (snd en),
                        SubscriptionsDispose (the (map_of subs (fst en)))]) es)"

subsection \<open>An example project\<close>

text \<open>
  A model with stacks for two Mercurial repositories, the second one active, and a
  project that has dropped the first repository and gained a third one, next to a
  directory without repository and a Git repository.
\<close>

definition exampleStack :: "nat \<Rightarrow> nat \<Rightarrow> RepositoryStack" where
  "exampleStack i r = \<lparr>stackId = i, stackRepository = \<lparr>repoId = r, getType = ''hg''\<rparr>\<rparr>"

definition exampleModel :: DiffViewModel where
  "exampleModel =
     \<lparr>u_repositoryStacks =
        [(\<lparr>repoId = 1, getType = ''hg''\<rparr>, exampleStack 0 1),
         (\<lparr>repoId = 2, getType = ''hg''\<rparr>, exampleStack 1 2)],
      u_repositorySubscriptions =
        [(\<lparr>repoId = 1, getType = ''hg''\<rparr>, \<lparr>listenersOf = exampleStack 0 1\<rparr>),
         (\<lparr>repoId = 2, getType = ''hg''\<rparr>, \<lparr>listenersOf = exampleStack 1 2\<rparr>)],
      u_activeRepositoryStack = Some (exampleStack 1 2),
      u_isActive = True,
      u_state = initialState,
      effects = [],
      allocated = 2\<rparr>"

definition exampleEnv :: Env where
  "exampleEnv =
     \<lparr>project_getRepositories =
        [Some \<lparr>repoId = 2, getType = ''hg''\<rparr>, None, Some \<lparr>repoId = 3, getType = ''hg''\<rparr>,
         Some \<lparr>repoId = 4, getType = ''git''\<rparr>],
      stack_getDirtyFileChanges = (\<lambda>repositoryStack. [(''a.txt'', 1)]),
      stack_getCommitMergeFileChanges = (\<lambda>repositoryStack. []),
      map_union = concat\<rparr>"



section \<open>The registry of remote connections (RemoteConnection)\<close>

text \<open>
  Modelled from the spec: \<^verbatim>\<open>RemoteConnection.js\<close> and \<^verbatim>\<open>ServerConnection.js\<close> are not
  among the sources; only the test \<^verbatim>\<open>RemoteConnection-spec.js\<close> is.  The spec speaks of
  connection records keyed by hostname and path; a record is known by its identity,
  and the registry is the connections registered, in the order of registration.
\<close>

record RemoteConnection =
  connectionId :: nat
  hostname :: string
  path :: string

text \<open>
  Modelled from the spec: \<^verbatim>\<open>RemoteConnection.getByHostnameAndPath\<close>, which is missing
  from the sources.  The spec says that the registry maps hostname and path to live
  connection objects, and the test looks a connection up by a path that is not its
  root directory.  So the result is one of the registered connections that have the
  hostname and to whose root directory the path belongs, and \<open>None\<close>, for
  \<^verbatim>\<open>undefined\<close>, when there is none.  Neither the spec nor the test says how a path
  is held against a root directory, nor which connection is returned when several
  qualify: both are parameters, \<open>within\<close> and \<open>pick\<close>, and \<open>picksOne\<close> says of
  \<open>pick\<close> only that it returns one of the candidates when there are any.
\<close>

definition getByHostnameAndPath ::
  "(string \<Rightarrow> string \<Rightarrow> bool) \<Rightarrow> (RemoteConnection list \<Rightarrow> RemoteConnection option)
     \<Rightarrow> RemoteConnection list \<Rightarrow> string \<Rightarrow> string \<Rightarrow> RemoteConnection option" where
  "getByHostnameAndPath within pick registry h q =
     pick (filter (\<lambda>connection. hostname connection = h \<and> within (path connection) q) registry)"

definition picksOne :: "(RemoteConnection list \<Rightarrow> RemoteConnection option) \<Rightarrow> bool" where
  "picksOne pick =
     (pick [] = None \<and> (\<forall>candidates. candidates \<noteq> [] \<longrightarrow>
                            (\<exists>c\<in>set candidates. pick candidates = Some c)))"

text \<open>
  The words of the claim for a path and a root directory: the path equals the root
  or is a file path beneath it, the root followed by \<^verbatim>\<open>/\<close> and more.  Two ways to
  pick: the first and the last candidate.
\<close>

definition pathWithin :: "string \<Rightarrow> string \<Rightarrow> bool" where
  "pathWithin root p = (p = root \<or> prefix (root @ ''/'') p)"


definition lastOf :: "RemoteConnection list \<Rightarrow> RemoteConnection option" where
  "lastOf candidates = (case rev candidates of [] \<Rightarrow> None | c # rest \<Rightarrow> Some c)"


definition outerConnection :: RemoteConnection where
  "outerConnection = \<lparr>connectionId = 1, hostname = ''foo.nuclide.com'', path = ''/home''\<rparr>"

definition innerConnection :: RemoteConnection where
  "innerConnection = \<lparr>connectionId = 2, hostname = ''foo.nuclide.com'', path = ''/home/foo''\<rparr>"


section \<open>Properties of createMessage\<close>

lemma getLevel_cases:
  "getLevel lv =
     (if lv \<in> {''0'', ''1'', ''2'', ''3''} then Inr ''error''
      else if lv = ''4'' then Inr ''warning''
      else if lv = ''5'' then Inr ''log''
      else if lv = ''6'' then Inr ''info''
      else if lv = ''7'' then Inr ''debug''
      else Inl (InvalidAslLevel (''Invalid ASL level: '' @ lv)))"
  unfolding getLevel_def by simp

text \<open>
  Claim C9.  For every record, \<^verbatim>\<open>createMessage\<close> returns the message text unchanged
  with level \<^verbatim>\<open>error\<close> for the ASL levels 0 to 3, \<^verbatim>\<open>warning\<close> for 4, \<^verbatim>\<open>log\<close> for 5,
  \<^verbatim>\<open>info\<close> for 6 and \<^verbatim>\<open>debug\<close> for 7, and for every other level it throws the
  error \<^verbatim>\<open>Invalid ASL level\<close>.
\<close>

theorem createMessage_levels:
  "createMessage r =
     (if Level r \<in> {''0'', ''1'', ''2'', ''3''} then Inr \<lparr>text' = Message r, level = ''error''\<rparr>
      else if Level r = ''4'' then Inr \<lparr>text' = Message r, level = ''warning''\<rparr>
      else if Level r = ''5'' then Inr \<lparr>text' = Message r, level = ''log''\<rparr>
      else if Level r = ''6'' then Inr \<lparr>text' = Message r, level = ''info''\<rparr>
      else if Level r = ''7'' then Inr \<lparr>text' = Message r, level = ''debug''\<rparr>
      else Inl (InvalidAslLevel (''Invalid ASL level: '' @ Level r)))"
  unfolding createMessage_def getLevel_cases by simp

theorem createMessage_levels_witness:
  "createMessage \<lparr>Message = ''boot'', Level = ''4''\<rparr> = Inr \<lparr>text' = ''boot'', level = ''warning''\<rparr>
   \<and> createMessage \<lparr>Message = ''boot'', Level = ''8''\<rparr> = Inl (InvalidAslLevel ''Invalid ASL level: 8'')"
  using createMessage_levels [of "\<lparr>Message = ''boot'', Level = ''4''\<rparr>"]
        createMessage_levels [of "\<lparr>Message = ''boot'', Level = ''8''\<rparr>"]
  by simp


section \<open>Properties of getUndeclaredJSXIdentifiers\<close>

lemma set_add_set: "set (set_add s x) = insert x (set s)"
  by (auto simp: set_add_def set_has_def)

lemma set_add_distinct: "distinct s \<Longrightarrow> distinct (set_add s x)"
  by (simp add: set_add_def set_has_def)

lemma undeclared_loop_set:
  "set (undeclared_loop d xs acc) = set acc \<union> (set xs - set d)"
  by (induction xs arbitrary: acc) (auto simp: set_add_set set_has_def)

lemma undeclared_loop_distinct:
  "distinct acc \<Longrightarrow> distinct (undeclared_loop d xs acc)"
  by (induction xs arbitrary: acc) (simp_all add: set_add_distinct)

text \<open>
  Claim C10.  The set returned by \<^verbatim>\<open>getUndeclaredJSXIdentifiers(root, options)\<close>
  has an identifier as a member if and only if the identifier is a member of
  \<^verbatim>\<open>getJSXIdentifiers(root)\<close> and not a member of
  \<^verbatim>\<open>getDeclaredIdentifiers(root, options)\<close>; the result is a set (no element twice).
\<close>

theorem getUndeclaredJSXIdentifiers_difference:
  "set_has (getUndeclaredJSXIdentifiers getDeclaredIdentifiers getJSXIdentifiers root options) ident
     = (set_has (getJSXIdentifiers root) ident
        \<and> \<not> set_has (getDeclaredIdentifiers root options) ident)
   \<and> distinct (getUndeclaredJSXIdentifiers getDeclaredIdentifiers getJSXIdentifiers root options)"
  by (simp add: getUndeclaredJSXIdentifiers_def Let_def set_has_def
      undeclared_loop_set undeclared_loop_distinct)

section \<open>Properties of the registry of remote connections\<close>


lemma picksOne_lastOf: "picksOne lastOf"
proof -
  have "\<exists>c\<in>set candidates. lastOf candidates = Some c" if "candidates \<noteq> []" for candidates
  proof (cases "rev candidates")
    case Nil
    with that show ?thesis by simp
  next
    case (Cons c rest)
    then have "c \<in> set (rev candidates)" by simp
    with Cons show ?thesis by (simp add: lastOf_def)
  qed
  then show ?thesis by (simp add: picksOne_def lastOf_def)
qed


text \<open>
  Whatever is picked among several candidates, two registered connections to one
  host with nested root directories cannot both be the result for a path beneath
  both roots.
\<close>

lemma getByHostnameAndPath_not_every_connection:
  "\<not> (\<forall>registry connection q.
         connection \<in> set registry \<longrightarrow> pathWithin (path connection) q \<longrightarrow>
         getByHostnameAndPath pathWithin pick registry (hostname connection) q = Some connection)"
proof
  assume all: "\<forall>registry connection q.
         connection \<in> set registry \<longrightarrow> pathWithin (path connection) q \<longrightarrow>
         getByHostnameAndPath pathWithin pick registry (hostname connection) q = Some connection"
  let ?registry = "[outerConnection, innerConnection]" and ?q = "''/home/foo/test/abc.txt''"
  have o: "pathWithin (path outerConnection) ?q" and i: "pathWithin (path innerConnection) ?q"
    by (simp_all add: pathWithin_def outerConnection_def innerConnection_def)
  have h: "hostname outerConnection = hostname innerConnection"
    by (simp add: outerConnection_def innerConnection_def)
  note each = all [rule_format]
  have "getByHostnameAndPath pathWithin pick ?registry (hostname outerConnection) ?q
      = Some outerConnection"
    by (rule each [OF _ o]) simp
  then have outer: "getByHostnameAndPath pathWithin pick ?registry (hostname innerConnection) ?q
      = Some outerConnection"
    unfolding h .
  have inner: "getByHostnameAndPath pathWithin pick ?registry (hostname innerConnection) ?q
      = Some innerConnection"
    by (rule each [OF _ i]) simp
  from outer [symmetric] inner have "Some outerConnection = Some innerConnection"
    by (rule trans)
  then have "outerConnection = innerConnection" by (rule option.inject [THEN iffD1])
  then show False by (simp add: outerConnection_def innerConnection_def)
qed





section \<open>Properties of the generated service proxy\<close>








section \<open>Properties of the diff view model\<close>

subsection \<open>Fields, collections and the two loops\<close>

lemma perform_fields:
  "u_state (perform e vm) = u_state vm"
  "effects (perform e vm) = effects vm @ [e]"
  "u_activeRepositoryStack (perform e vm) = u_activeRepositoryStack vm"
  "u_repositoryStacks (perform e vm) = u_repositoryStacks vm"
  "u_repositorySubscriptions (perform e vm) = u_repositorySubscriptions vm"
  "u_isActive (perform e vm) = u_isActive vm"
  "allocated (perform e vm) = allocated vm"
  by (simp_all add: perform_def)

lemma u_setState_fields:
  "u_state (u_setState s vm) = s"
  "effects (u_setState s vm) = effects vm @ [Emit DID_UPDATE_STATE_EVENT]"
  "u_activeRepositoryStack (u_setState s vm) = u_activeRepositoryStack vm"
  "u_repositoryStacks (u_setState s vm) = u_repositoryStacks vm"
  "u_repositorySubscriptions (u_setState s vm) = u_repositorySubscriptions vm"
  "u_isActive (u_setState s vm) = u_isActive vm"
  "allocated (u_setState s vm) = allocated vm"
  by (simp_all add: u_setState_def perform_def)

lemma foldl_set_add_set: "set (foldl set_add acc xs) = set acc \<union> set xs"
  by (induction xs arbitrary: acc) (auto simp: set_add_def set_has_def)

lemma foldl_set_add_distinct: "distinct acc \<Longrightarrow> distinct (foldl set_add acc xs)"
  by (induction xs arbitrary: acc) (auto simp: set_add_def set_has_def)

lemma hgRepositories_set:
  "set (hgRepositories env) =
     {r. Some r \<in> set (project_getRepositories env) \<and> getType r = ''hg''}"
  by (auto simp: hgRepositories_def new_Set_def foldl_set_add_set split: option.splits if_splits)

lemma hgRepositories_distinct: "distinct (hgRepositories env)"
  by (simp add: hgRepositories_def new_Set_def foldl_set_add_distinct)

lemma map_of_filter_key:
  "map_of (filter (\<lambda>en. fst en \<noteq> r) m) k = (if k = r then None else map_of m k)"
  by (induction m) auto

lemma map_of_filter_keep:
  "P k \<Longrightarrow> map_of (filter (\<lambda>en. P (fst en)) m) k = map_of m k"
  by (induction m) auto

lemma jsmap_set_absent: "k \<notin> fst ` set m \<Longrightarrow> jsmap_set m k v = m @ [(k, v)]"
  by (induction m) auto

lemma jsmap_set_map_fst:
  "map fst (jsmap_set m k v) = (if k \<in> set (map fst m) then map fst m else map fst m @ [k])"
  by (induction m) (fastforce simp: image_iff)+

lemma jsmap_set_keys: "fst ` set (jsmap_set m k v) = insert k (fst ` set m)"
proof -
  have "fst ` set (jsmap_set m k v) = set (map fst (jsmap_set m k v))" by simp
  also have "\<dots> = insert k (set (map fst m))"
    by (cases "k \<in> set (map fst m)") (simp_all add: jsmap_set_map_fst insert_absorb)
  finally show ?thesis by simp
qed

lemma keys_filter_ne: "fst ` set (filter (\<lambda>e. fst e \<noteq> r) m) = fst ` set m - {r}"
  by (induction m) auto

lemma jsmap_set_distinct: "distinct (map fst m) \<Longrightarrow> distinct (map fst (jsmap_set m k v))"
  by (simp add: jsmap_set_map_fst)

lemma createdStacks_append: "createdStacks (xs @ ys) = createdStacks xs @ createdStacks ys"
  by (induction xs rule: createdStacks.induct) simp_all

lemma disposedStacks_append: "disposedStacks (xs @ ys) = disposedStacks xs @ disposedStacks ys"
  by (induction xs rule: disposedStacks.induct) simp_all

lemma disposedSubscriptions_append:
  "disposedSubscriptions (xs @ ys) = disposedSubscriptions xs @ disposedSubscriptions ys"
  by (induction xs rule: disposedSubscriptions.induct) simp_all

lemma disposeRemoved_char:
  assumes "distinct (map fst es)"
    and "fst ` set es \<subseteq> fst ` set (u_repositorySubscriptions vm)"
  shows "\<exists>vm'. disposeRemoved R es vm = Normal vm'
     \<and> u_repositoryStacks vm'
         = filter (\<lambda>en. fst en \<in> set R \<or> fst en \<notin> fst ` set es) (u_repositoryStacks vm)
     \<and> u_repositorySubscriptions vm'
         = filter (\<lambda>en. fst en \<in> set R \<or> fst en \<notin> fst ` set es) (u_repositorySubscriptions vm)
     \<and> effects vm' = effects vm
         @ disposals (u_repositorySubscriptions vm) (filter (\<lambda>en. fst en \<notin> set R) es)
     \<and> u_state vm' = u_state vm \<and> u_isActive vm' = u_isActive vm
     \<and> allocated vm' = allocated vm
     \<and> u_activeRepositoryStack vm' = u_activeRepositoryStack vm"
  using assms
proof (induction es arbitrary: vm)
  case Nil
  then show ?case by (simp add: disposals_def)
next
  case (Cons en rest)
  obtain r st where en: "en = (r, st)" by (cases en)
  from Cons.prems en have r_rest: "r \<notin> fst ` set rest" and d_rest: "distinct (map fst rest)"
    by auto
  show ?case
  proof (cases "r \<in> set R")
    case True
    from Cons.prems have "fst ` set rest \<subseteq> fst ` set (u_repositorySubscriptions vm)" by auto
    from Cons.IH [OF d_rest this] obtain vm' where
      vm': "disposeRemoved R rest vm = Normal vm'"
        "u_repositoryStacks vm'
           = filter (\<lambda>en. fst en \<in> set R \<or> fst en \<notin> fst ` set rest) (u_repositoryStacks vm)"
        "u_repositorySubscriptions vm'
           = filter (\<lambda>en. fst en \<in> set R \<or> fst en \<notin> fst ` set rest) (u_repositorySubscriptions vm)"
        "effects vm' = effects vm
           @ disposals (u_repositorySubscriptions vm) (filter (\<lambda>en. fst en \<notin> set R) rest)"
        "u_state vm' = u_state vm" "u_isActive vm' = u_isActive vm"
        "allocated vm' = allocated vm"
        "u_activeRepositoryStack vm' = u_activeRepositoryStack vm"
      by blast
    have eq: "(\<lambda>e. fst e \<in> set R \<or> fst e \<notin> fst ` set (en # rest))
            = (\<lambda>e. fst e \<in> set R \<or> fst e \<notin> fst ` set rest)"
      using True en by auto
    show ?thesis
      unfolding eq using vm' True en by (simp add: set_has_def)
  next
    case False
    from Cons.prems en have "r \<in> fst ` set (u_repositorySubscriptions vm)" by auto
    then obtain s where s: "map_of (u_repositorySubscriptions vm) r = Some s"
      using map_of_eq_None_iff [of "u_repositorySubscriptions vm" r]
      by (cases "map_of (u_repositorySubscriptions vm) r") auto
    define vm4 where "vm4 =
      (perform (SubscriptionsDispose s)
        ((perform (StackDispose st) vm)
           \<lparr>u_repositoryStacks := jsmap_delete (u_repositoryStacks vm) r\<rparr>))
      \<lparr>u_repositorySubscriptions := jsmap_delete (u_repositorySubscriptions vm) r\<rparr>"
    have step: "disposeRemoved R (en # rest) vm = disposeRemoved R rest vm4"
      using False en s
      by (simp add: set_has_def Let_def perform_fields jsmap_get_def jsmap_delete_def vm4_def
            perform_def)
    have f4: "u_repositoryStacks vm4 = filter (\<lambda>e. fst e \<noteq> r) (u_repositoryStacks vm)"
      "u_repositorySubscriptions vm4 = filter (\<lambda>e. fst e \<noteq> r) (u_repositorySubscriptions vm)"
      "effects vm4 = effects vm @ [StackDispose st, SubscriptionsDispose s]"
      "u_state vm4 = u_state vm" "u_isActive vm4 = u_isActive vm" "allocated vm4 = allocated vm"
      "u_activeRepositoryStack vm4 = u_activeRepositoryStack vm"
      by (simp_all add: vm4_def perform_def jsmap_delete_def)
    have sub4: "fst ` set rest \<subseteq> fst ` set (u_repositorySubscriptions vm4)"
      using Cons.prems r_rest unfolding f4 keys_filter_ne by auto
    from Cons.IH [OF d_rest sub4] obtain vm' where
      vm': "disposeRemoved R rest vm4 = Normal vm'"
        "u_repositoryStacks vm'
           = filter (\<lambda>en. fst en \<in> set R \<or> fst en \<notin> fst ` set rest) (u_repositoryStacks vm4)"
        "u_repositorySubscriptions vm'
           = filter (\<lambda>en. fst en \<in> set R \<or> fst en \<notin> fst ` set rest) (u_repositorySubscriptions vm4)"
        "effects vm' = effects vm4
           @ disposals (u_repositorySubscriptions vm4) (filter (\<lambda>en. fst en \<notin> set R) rest)"
        "u_state vm' = u_state vm4" "u_isActive vm' = u_isActive vm4"
        "allocated vm' = allocated vm4"
        "u_activeRepositoryStack vm' = u_activeRepositoryStack vm4"
      by blast
    have eq: "\<And>e. (fst e \<noteq> r \<and> (fst e \<in> set R \<or> fst e \<notin> fst ` set rest))
            = (fst e \<in> set R \<or> fst e \<notin> fst ` set (en # rest))"
      using False en by auto
    have st: "u_repositoryStacks vm'
        = filter (\<lambda>e. fst e \<in> set R \<or> fst e \<notin> fst ` set (en # rest)) (u_repositoryStacks vm)"
      unfolding vm'(2) f4 filter_filter by (rule filter_cong [OF refl]) (simp only: eq conj_commute)
    have sb: "u_repositorySubscriptions vm'
        = filter (\<lambda>e. fst e \<in> set R \<or> fst e \<notin> fst ` set (en # rest))
            (u_repositorySubscriptions vm)"
      unfolding vm'(3) f4 filter_filter by (rule filter_cong [OF refl]) (simp only: eq conj_commute)
    have disp: "disposals (u_repositorySubscriptions vm4) (filter (\<lambda>en. fst en \<notin> set R) rest)
              = disposals (u_repositorySubscriptions vm) (filter (\<lambda>en. fst en \<notin> set R) rest)"
      unfolding disposals_def f4
      using r_rest
      by (intro arg_cong [where f = concat] map_cong refl)
         (auto simp: map_of_filter_key image_iff)
    note e4 = vm'(4) [unfolded disp f4(3)]
    have eff: "effects vm' = effects vm
         @ disposals (u_repositorySubscriptions vm) (filter (\<lambda>en. fst en \<notin> set R) (en # rest))"
      using e4 False en s by (simp add: disposals_def)
    show ?thesis
      unfolding step
      by (intro exI [of _ vm'] conjI vm'(1) st sb eff)
         (simp_all only: vm'(5-8) f4(4-7))
  qed
qed

lemma createRepositoryStack_fresh:
  assumes "r \<notin> fst ` set (u_repositoryStacks vm)"
  shows "u_repositoryStacks (snd (u_createRepositoryStack r vm))
           = u_repositoryStacks vm @ [(r, \<lparr>stackId = allocated vm, stackRepository = r\<rparr>)]"
    and "u_repositorySubscriptions (snd (u_createRepositoryStack r vm))
           = jsmap_set (u_repositorySubscriptions vm) r
               \<lparr>listenersOf = \<lparr>stackId = allocated vm, stackRepository = r\<rparr>\<rparr>"
    and "effects (snd (u_createRepositoryStack r vm))
           = effects vm @ StackCreate \<lparr>stackId = allocated vm, stackRepository = r\<rparr>
               # (if u_isActive vm
                  then [StackActivate \<lparr>stackId = allocated vm, stackRepository = r\<rparr>] else [])"
    and "u_state (snd (u_createRepositoryStack r vm)) = u_state vm"
  using assms
  by (simp_all add: u_createRepositoryStack_def Let_def perform_def jsmap_set_absent)

lemma createMissing_kept:
  "map_of (u_repositoryStacks vm) k = Some st
   \<Longrightarrow> map_of (u_repositoryStacks (createMissing rs vm)) k = Some st"
proof (induction rs arbitrary: vm)
  case Nil
  then show ?case by simp
next
  case (Cons r rest)
  show ?case
  proof (cases "r \<in> fst ` set (u_repositoryStacks vm)")
    case True
    with Cons show ?thesis by (simp add: jsmap_has_def)
  next
    case False
    from Cons.prems have "map_of (u_repositoryStacks (snd (u_createRepositoryStack r vm))) k = Some st"
      by (simp add: createRepositoryStack_fresh(1) [OF False] map_add_Some_iff)
    from Cons.IH [OF this] False show ?thesis by (simp add: jsmap_has_def)
  qed
qed

lemma createMissing_keys:
  "fst ` set (u_repositoryStacks (createMissing rs vm)) = fst ` set (u_repositoryStacks vm) \<union> set rs"
proof (induction rs arbitrary: vm)
  case Nil
  then show ?case by simp
next
  case (Cons r rest)
  show ?case
  proof (cases "r \<in> fst ` set (u_repositoryStacks vm)")
    case True
    with Cons.IH [of vm] show ?thesis by (auto simp: jsmap_has_def)
  next
    case False
    with Cons.IH [of "snd (u_createRepositoryStack r vm)"] show ?thesis
      by (auto simp: jsmap_has_def createRepositoryStack_fresh(1) [OF False])
  qed
qed

lemma createMissing_distinct:
  "distinct (map fst (u_repositoryStacks vm))
   \<Longrightarrow> distinct (map fst (u_repositoryStacks (createMissing rs vm)))"
proof (induction rs arbitrary: vm)
  case Nil
  then show ?case by simp
next
  case (Cons r rest)
  show ?case
  proof (cases "r \<in> fst ` set (u_repositoryStacks vm)")
    case True
    with Cons show ?thesis by (simp add: jsmap_has_def)
  next
    case False
    with Cons.prems
    have "distinct (map fst (u_repositoryStacks (snd (u_createRepositoryStack r vm))))"
      by (simp add: createRepositoryStack_fresh(1) [OF False])
    from Cons.IH [OF this] False show ?thesis by (simp add: jsmap_has_def)
  qed
qed

lemma createMissing_subscriptions_keys:
  "fst ` set (u_repositorySubscriptions (createMissing rs vm))
     = fst ` set (u_repositorySubscriptions vm) \<union> (set rs - fst ` set (u_repositoryStacks vm))"
proof (induction rs arbitrary: vm)
  case Nil
  then show ?case by simp
next
  case (Cons r rest)
  show ?case
  proof (cases "r \<in> fst ` set (u_repositoryStacks vm)")
    case True
    with Cons.IH [of vm] show ?thesis by (auto simp: jsmap_has_def)
  next
    case False
    with Cons.IH [of "snd (u_createRepositoryStack r vm)"] show ?thesis
      by (auto simp: jsmap_has_def createRepositoryStack_fresh(1,2) [OF False] jsmap_set_keys)
  qed
qed

lemma createMissing_subscriptions_distinct:
  "distinct (map fst (u_repositorySubscriptions vm))
   \<Longrightarrow> distinct (map fst (u_repositorySubscriptions (createMissing rs vm)))"
proof (induction rs arbitrary: vm)
  case Nil
  then show ?case by simp
next
  case (Cons r rest)
  show ?case
  proof (cases "r \<in> fst ` set (u_repositoryStacks vm)")
    case True
    with Cons show ?thesis by (simp add: jsmap_has_def)
  next
    case False
    with Cons.prems
    have "distinct (map fst (u_repositorySubscriptions (snd (u_createRepositoryStack r vm))))"
      by (simp add: createRepositoryStack_fresh(2) [OF False] jsmap_set_distinct)
    from Cons.IH [OF this] False show ?thesis by (simp add: jsmap_has_def)
  qed
qed

lemma createMissing_effects:
  assumes "distinct rs"
  shows "\<exists>new. effects (createMissing rs vm) = effects vm @ new
     \<and> map stackRepository (createdStacks new)
         = filter (\<lambda>r. r \<notin> fst ` set (u_repositoryStacks vm)) rs
     \<and> disposedStacks new = [] \<and> disposedSubscriptions new = []
     \<and> (\<forall>st\<in>set (createdStacks new).
           map_of (u_repositoryStacks (createMissing rs vm)) (stackRepository st) = Some st)"
  using assms
proof (induction rs arbitrary: vm)
  case Nil
  then show ?case by simp
next
  case (Cons r rest)
  from Cons.prems have r_rest: "r \<notin> set rest" and d_rest: "distinct rest" by auto
  show ?case
  proof (cases "r \<in> fst ` set (u_repositoryStacks vm)")
    case True
    from Cons.IH [OF d_rest, of vm] True show ?thesis by (simp add: jsmap_has_def)
  next
    case False
    define st where "st = \<lparr>stackId = allocated vm, stackRepository = r\<rparr>"
    define vm1 where "vm1 = snd (u_createRepositoryStack r vm)"
    have step: "createMissing (r # rest) vm = createMissing rest vm1"
      using False by (simp add: jsmap_has_def vm1_def)
    have f1: "u_repositoryStacks vm1 = u_repositoryStacks vm @ [(r, st)]"
      "effects vm1 = effects vm @ StackCreate st # (if u_isActive vm then [StackActivate st] else [])"
      using createRepositoryStack_fresh(1,3) [OF False] by (simp_all add: vm1_def st_def)
    from Cons.IH [OF d_rest, of vm1] obtain new where new:
      "effects (createMissing rest vm1) = effects vm1 @ new"
      "map stackRepository (createdStacks new)
         = filter (\<lambda>r. r \<notin> fst ` set (u_repositoryStacks vm1)) rest"
      "disposedStacks new = []" "disposedSubscriptions new = []"
      "\<forall>st\<in>set (createdStacks new).
           map_of (u_repositoryStacks (createMissing rest vm1)) (stackRepository st) = Some st"
      by blast
    have flt: "filter (\<lambda>x. x \<notin> fst ` set (u_repositoryStacks vm1)) rest
             = filter (\<lambda>x. x \<notin> fst ` set (u_repositoryStacks vm)) rest"
      using r_rest by (intro filter_cong refl) (auto simp: f1)
    have "map_of (u_repositoryStacks vm1) r = Some st"
      using False by (simp add: f1 map_add_Some_iff map_of_eq_None_iff)
    then have mine: "map_of (u_repositoryStacks (createMissing rest vm1)) r = Some st"
      by (rule createMissing_kept)
    let ?new = "StackCreate st # (if u_isActive vm then [StackActivate st] else []) @ new"
    have "effects (createMissing (r # rest) vm) = effects vm @ ?new"
      unfolding step new(1) f1 by simp
    moreover have "map stackRepository (createdStacks ?new)
         = filter (\<lambda>x. x \<notin> fst ` set (u_repositoryStacks vm)) (r # rest)"
      using False new(2) flt by (simp add: st_def)
    moreover have "disposedStacks ?new = []" "disposedSubscriptions ?new = []"
      using new(3,4) by simp_all
    moreover have "\<forall>s\<in>set (createdStacks ?new).
           map_of (u_repositoryStacks (createMissing (r # rest) vm)) (stackRepository s) = Some s"
      unfolding step using new(5) mine by (auto simp: st_def)
    ultimately show ?thesis by blast
  qed
qed

lemma disposals_read:
  "disposedStacks (disposals subs es) = map snd es"
  "disposedSubscriptions (disposals subs es) = map (\<lambda>en. the (map_of subs (fst en))) es"
  "createdStacks (disposals subs es) = []"
  by (induction es) (simp_all add: disposals_def)

lemma set_has_hgRepositories: "set_has (hgRepositories env) r = projectHgRepository env r"
  by (simp add: set_has_def hgRepositories_set projectHgRepository_def)

lemma updateDirty_fields:
  "u_repositoryStacks (u_updateDirtyChangedStatus env vm) = u_repositoryStacks vm"
  "u_repositorySubscriptions (u_updateDirtyChangedStatus env vm) = u_repositorySubscriptions vm"
  "effects (u_updateDirtyChangedStatus env vm) = effects vm @ [Emit DID_UPDATE_STATE_EVENT]"
  by (simp_all add: u_updateDirtyChangedStatus_def u_updateCompareChangedStatus_def Let_def
        u_setState_fields)


subsection \<open>Substrings\<close>

lemma indexOf_from_found:
  "(indexOf_from i s needle \<noteq> - 1) = sublist needle s"
proof (induction i s needle rule: indexOf_from.induct)
  case (1 i needle)
  show ?case by simp
next
  case (2 i c cs needle)
  show ?case
  proof (cases "prefix needle (c # cs)")
    case True
    then show ?thesis by (simp add: prefix_imp_sublist)
  next
    case False
    with 2 show ?thesis by (simp add: sublist_Cons_right)
  qed
qed

lemma indexOf_found: "(indexOf s needle \<noteq> - 1) = sublist needle s"
  by (simp add: indexOf_def indexOf_from_found)


subsection \<open>Every run keeps the relation of the file changes\<close>

lemma performAll_u_state: "u_state (performAll es vm) = u_state vm"
  by (induction es arbitrary: vm) (simp_all add: perform_fields(1))

lemma compareInvariant_updateCompare:
  "compareInvariant (u_state (u_updateCompareChangedStatus d c vm))"
  by (simp add: u_updateCompareChangedStatus_def Let_def u_setState_fields(1) compareInvariant_def)

lemma compareInvariant_files_upd:
  "compareInvariant (s\<lparr>commitMessage := a\<rparr>) = compareInvariant s"
  "compareInvariant (s\<lparr>commitMode := b\<rparr>) = compareInvariant s"
  "compareInvariant (s\<lparr>commitModeState := c\<rparr>) = compareInvariant s"
  "compareInvariant (s\<lparr>publishMessage := d\<rparr>) = compareInvariant s"
  "compareInvariant (s\<lparr>publishMode := e\<rparr>) = compareInvariant s"
  "compareInvariant (s\<lparr>publishModeState := f\<rparr>) = compareInvariant s"
  "compareInvariant (s\<lparr>headRevision := g\<rparr>) = compareInvariant s"
  by (simp_all add: compareInvariant_def)

lemma disposeRemoved_u_state:
  "u_state (after (disposeRemoved rs es vm)) = u_state vm"
  by (induction rs es vm rule: disposeRemoved.induct)
     (simp_all add: Let_def perform_fields(1) split: option.splits)

lemma createRepositoryStack_u_state:
  "u_state (snd (u_createRepositoryStack r vm)) = u_state vm"
  by (simp add: u_createRepositoryStack_def Let_def perform_def)

lemma createMissing_u_state: "u_state (createMissing rs vm) = u_state vm"
  by (induction rs arbitrary: vm) (simp_all add: createRepositoryStack_u_state)

lemma compareInvariant_updateRepositories:
  "compareInvariant (u_state vm) \<Longrightarrow> compareInvariant (u_state (after (u_updateRepositories env vm)))"
  using disposeRemoved_u_state [of "hgRepositories env" "u_repositoryStacks vm" vm]
  by (cases "disposeRemoved (hgRepositories env) (u_repositoryStacks vm) vm")
     (simp_all add: u_updateRepositories_def Let_def u_updateDirtyChangedStatus_def
        compareInvariant_updateCompare)

lemma compareInvariant_constructor:
  "constructor env = Normal vm \<Longrightarrow> compareInvariant (u_state vm)"
  by (auto simp: constructor_def u_updateRepositories_def Let_def u_updateDirtyChangedStatus_def
        compareInvariant_updateCompare)

lemma compareInvariant_loadCommit_finally:
  "compareInvariant (u_state vm) \<Longrightarrow> compareInvariant (u_state (u_loadCommitModeState_finally m vm))"
  by (simp add: u_loadCommitModeState_finally_def u_setState_fields(1) compareInvariant_files_upd)

lemma getActiveRevisionsState_u_state:
  "u_state (snd (getActiveRevisionsState cached vm)) = u_state vm"
  by (simp add: getActiveRevisionsState_def perform_fields(1) split: option.splits)

lemma loadLatest_u_state:
  "u_state (snd (u_loadActiveRepositoryLatestCommitMessage cached vm)) = u_state vm"
  using getActiveRevisionsState_u_state [of cached vm]
  by (auto simp: u_loadActiveRepositoryLatestCommitMessage_def Let_def
        split: prod.splits settled.splits option.splits)

lemma compareInvariant_loadCommit_start:
  "compareInvariant (u_state vm) \<Longrightarrow>
   compareInvariant (u_state (started (u_loadCommitModeState_start cached vm)))"
  using loadLatest_u_state [of cached "u_setState ((u_state vm)\<lparr>commitModeState := LOADING_COMMIT_MESSAGE\<rparr>) vm"]
  by (cases "u_loadActiveRepositoryLatestCommitMessage cached
          (u_setState ((u_state vm)\<lparr>commitModeState := LOADING_COMMIT_MESSAGE\<rparr>) vm)")
     (simp add: u_loadCommitModeState_start_def Let_def u_setState_fields(1) perform_fields(1)
        compareInvariant_files_upd compareInvariant_loadCommit_finally
        split: option.splits)

lemma compareInvariant_loadPublish_start:
  "compareInvariant (u_state vm) \<Longrightarrow>
   compareInvariant (u_state (started (u_loadPublishModeState_start cached vm)))"
  using getActiveRevisionsState_u_state [of cached "u_setState ((u_state vm)\<lparr>publishMode := CREATE,
                                        publishModeState := LOADING_PUBLISH_MESSAGE,
                                        publishMessage := None,
                                        headRevision := None\<rparr>) vm"]
  by (cases "getActiveRevisionsState cached (u_setState ((u_state vm)\<lparr>publishMode := CREATE,
                                        publishModeState := LOADING_PUBLISH_MESSAGE,
                                        publishMessage := None,
                                        headRevision := None\<rparr>) vm)")
     (simp add: u_loadPublishModeState_start_def Let_def u_setState_fields(1)
        compareInvariant_files_upd)

lemma compareInvariant_loadModeState:
  "compareInvariant (u_state vm) \<Longrightarrow> compareInvariant (u_state (u_loadModeState cached vm))"
  by (simp add: u_loadModeState_def compareInvariant_loadCommit_start
        compareInvariant_loadPublish_start split: DiffModeType.splits)

lemma compareInvariant_loadPublish_resume:
  "compareInvariant (u_state vm) \<Longrightarrow>
   compareInvariant (u_state (snd (u_loadPublishModeState_resume awaited vm)))"
  by (simp add: u_loadPublishModeState_resume_def Let_def u_setState_fields(1)
        compareInvariant_files_upd split: settled.splits option.splits)

lemma compareInvariant_commit_catch:
  "compareInvariant (u_state vm) \<Longrightarrow> compareInvariant (u_state (after (commit_catch e vm)))"
  by (cases e)
     (simp_all add: commit_catch_def Let_def u_setState_fields(1) perform_fields(1)
        compareInvariant_files_upd)

lemma compareInvariant_reachable_aux:
  "reachable vm \<Longrightarrow> compareInvariant (u_state vm)"
proof (induction rule: reachable.induct)
  case (constructed env vm)
  then show ?case by (rule compareInvariant_constructor)
next
  case (updateRepositories vm env)
  then show ?case by (simp add: compareInvariant_updateRepositories)
next
  case (updateDirtyChangedStatus vm env)
  show ?case by (simp add: u_updateDirtyChangedStatus_def compareInvariant_updateCompare)
next
  case (updateCommitMergeFileChanges vm env)
  show ?case by (simp add: u_updateCommitMergeFileChanges_def compareInvariant_updateCompare)
next
  case (setPublishMessage vm msg)
  then show ?case
    by (simp add: setPublishMessage_def u_setState_fields(1) compareInvariant_files_upd)
next
  case (setViewMode vm cached mode)
  then show ?case
    by (simp add: setViewMode_def Let_def compareInvariant_loadModeState
          compareInvariant_updateCompare)
next
  case (setCommitMode vm cached cmode)
  then show ?case
    by (simp add: setCommitMode_def compareInvariant_loadCommit_start u_setState_fields(1)
          compareInvariant_files_upd)
next
  case (setActiveRepositoryStack vm repositoryStack)
  then show ?case
    by (simp add: u_setActiveRepositoryStack_start_def perform_fields(1))
next
  case (updateChangedRevisions vm cached repositoryStack revisionsState)
  then show ?case
    by (simp add: u_updateChangedRevisions_def u_onUpdateRevisionsState_def
          compareInvariant_loadModeState perform_fields(1))
next
  case (loadCommitModeState_resume vm source loaded)
  then show ?case
    by (simp add: u_loadCommitModeState_resume_def compareInvariant_loadCommit_finally
          perform_fields(1) split: settled.splits commitMessageSource.splits)
next
  case (loadPublishModeState_settled vm awaited)
  then show ?case
    using compareInvariant_loadPublish_resume [of vm awaited]
    by (auto simp: u_loadModeState_publishSettled_def perform_fields(1)
          split: prod.splits settled.splits)
next
  case (publishDiff_start vm msg)
  then show ?case
    by (simp add: publishDiff_start_def u_setState_fields(1) compareInvariant_files_upd)
next
  case (publishDiff_caught vm e)
  then show ?case by (simp add: perform_fields(1))
next
  case (publishDiff_finally vm msg)
  then show ?case
    by (simp add: publishDiff_finally_def u_setState_fields(1) compareInvariant_files_upd)
next
  case (commit_start vm msg)
  then show ?case
    by (cases "u_activeRepositoryStack vm"; cases "commitMode (u_state vm)")
       (simp_all add: commit_start_def Let_def u_setState_fields perform_fields(1)
          compareInvariant_commit_catch compareInvariant_files_upd)
next
  case (commit_resume vm activeStack cmode committed)
  then show ?case
    by (cases committed)
       (simp_all add: commit_resume_def Let_def perform_fields(1) compareInvariant_commit_catch)
next
  case (activate vm env)
  then show ?case
    using compareInvariant_updateRepositories [of vm env]
    by (auto simp: activate_def Let_def performAll_u_state split: completion.splits)
next
  case (deactivate vm)
  then show ?case by (simp add: deactivate_def Let_def perform_fields(1) split: option.splits)
next
  case (dispose vm)
  then show ?case by (simp add: dispose_def Let_def performAll_u_state)
qed

subsection \<open>The compared file changes (claim C3)\<close>

text \<open>
  Claim C3.  In every state of the object, after its constructor and after any
  synchronous run of one of its methods or of the rest of a suspended one (so, in
  particular, after every public operation has completed), the field
  \<^verbatim>\<open>compareFileChanges\<close> of the state equals \<^verbatim>\<open>dirtyFileChanges\<close> when the view mode
  is \<^verbatim>\<open>COMMIT_MODE\<close> and equals \<^verbatim>\<open>commitMergeFileChanges\<close> in every other view mode.
\<close>

theorem compareFileChanges_follows_viewMode:
  "reachable vm \<Longrightarrow>
   compareFileChanges (u_state vm) =
     (if viewMode (u_state vm) = COMMIT_MODE then dirtyFileChanges (u_state vm)
      else commitMergeFileChanges (u_state vm))"
  using compareInvariant_reachable_aux [of vm] by (simp add: compareInvariant_def)

lemma constructor_returns: "constructor env = Normal (after (constructor env))"
  by (simp add: constructor_def u_updateRepositories_def Let_def)

theorem compareFileChanges_follows_viewMode_witness:
  "reachable (setViewMode (Fulfilled None) COMMIT_MODE (after (constructor exampleEnv)))
   \<and> viewMode (u_state (setViewMode (Fulfilled None) COMMIT_MODE (after (constructor exampleEnv))))
       = COMMIT_MODE
   \<and> compareFileChanges
        (u_state (setViewMode (Fulfilled None) COMMIT_MODE (after (constructor exampleEnv))))
       = dirtyFileChanges
           (u_state (setViewMode (Fulfilled None) COMMIT_MODE (after (constructor exampleEnv))))"
proof -
  let ?vm = "setViewMode (Fulfilled None) COMMIT_MODE (after (constructor exampleEnv))"
  have r: "reachable ?vm"
    by (intro reachable.setViewMode reachable.constructed) (rule constructor_returns)
  have "u_state (after (constructor exampleEnv))
      = initialState\<lparr>dirtyFileChanges :=
          map_union exampleEnv (map (stack_getDirtyFileChanges exampleEnv)
            (jsmap_values (u_repositoryStacks (createMissing (hgRepositories exampleEnv)
               \<lparr>u_repositoryStacks = [], u_repositorySubscriptions = [],
                u_activeRepositoryStack = None, u_isActive = False, u_state = initialState,
                effects = [], allocated = 0\<rparr>))))\<rparr>"
    by (simp add: constructor_def u_updateRepositories_def Let_def u_updateDirtyChangedStatus_def
          u_updateCompareChangedStatus_def u_setState_fields createMissing_u_state initialState_def)
  then have "viewMode (u_state (after (constructor exampleEnv))) = BROWSE_MODE"
    by (simp add: initialState_def)
  then have m: "viewMode (u_state ?vm) = COMMIT_MODE"
    by (simp add: setViewMode_def Let_def u_loadModeState_def u_updateCompareChangedStatus_def
          u_setState_fields u_loadCommitModeState_start_def u_loadCommitModeState_finally_def
          perform_fields u_loadActiveRepositoryLatestCommitMessage_def getActiveRevisionsState_def
          split: option.splits prod.splits)
  from compareFileChanges_follows_viewMode [OF r] r m show ?thesis by simp
qed


subsection \<open>Errors of commit (claim C4)\<close>





subsection \<open>Publishing returns to READY (claim C5)\<close>

text \<open>
  Claim C5.  \<^verbatim>\<open>publishDiff(publishMessage)\<close> first sets \<^verbatim>\<open>publishModeState\<close> to
  \<^verbatim>\<open>AWAITING_PUBLISH\<close> with the given message.  Whether the awaited step succeeds or
  throws, and whatever happened to the object in between, it ends by setting
  \<^verbatim>\<open>publishModeState\<close> to \<^verbatim>\<open>READY\<close> with the same message, and it returns normally.
\<close>

theorem publishDiff_returns_to_READY:
  "u_state (publishDiff_start msg vm)
     = (u_state vm)\<lparr>publishMessage := Some msg, publishModeState := AWAITING_PUBLISH\<rparr>
   \<and> fst (publishDiff msg timer during1 during2 vm) = Fulfilled ()
   \<and> snd (publishDiff msg timer during1 during2 vm)
       = publishDiff_finally msg
           (case timer of
              Fulfilled u \<Rightarrow> during2 (during1 (publishDiff_start msg vm))
            | Rejected error \<Rightarrow>
                perform (NotifyInternalError error) (during1 (publishDiff_start msg vm)))
   \<and> publishModeState (u_state (snd (publishDiff msg timer during1 during2 vm)))
       = PublishModeState_READY
   \<and> publishMessage (u_state (snd (publishDiff msg timer during1 during2 vm))) = Some msg"
  by (cases timer)
     (simp_all add: publishDiff_def publishDiff_start_def publishDiff_finally_def Let_def
        u_setState_fields)


subsection \<open>The publish mode (claim C6)\<close>

text \<open>
  Claim C6.  With an active repository stack whose cached revisions are a non-empty
  list, \<^verbatim>\<open>_loadPublishModeState\<close> completes and leaves a state in which
  \<^verbatim>\<open>headRevision\<close> is the last revision and \<^verbatim>\<open>publishModeState\<close> is \<^verbatim>\<open>READY\<close>;
  \<^verbatim>\<open>publishMode\<close> is \<^verbatim>\<open>UPDATE\<close>, with the empty message, exactly when the description of
  the head revision contains \<^verbatim>\<open>Differential Revision:\<close>, and otherwise it is \<^verbatim>\<open>CREATE\<close>
  with that description as the message.
\<close>

theorem loadPublishModeState_decides_mode:
  assumes "u_activeRepositoryStack vm = Some activeStack"
    and "revisions revisionsState \<noteq> []"
  shows "fst (u_loadPublishModeState (Fulfilled (Some revisionsState)) during vm) = Fulfilled ()
     \<and> headRevision (u_state (snd (u_loadPublishModeState (Fulfilled (Some revisionsState)) during vm)))
         = Some (last (revisions revisionsState))
     \<and> publishModeState
          (u_state (snd (u_loadPublishModeState (Fulfilled (Some revisionsState)) during vm)))
         = PublishModeState_READY
     \<and> (publishMode (u_state (snd (u_loadPublishModeState (Fulfilled (Some revisionsState)) during vm)))
          = UPDATE)
         = sublist ''Differential Revision:'' (description (last (revisions revisionsState)))
     \<and> publishMode (u_state (snd (u_loadPublishModeState (Fulfilled (Some revisionsState)) during vm)))
         = (if sublist ''Differential Revision:'' (description (last (revisions revisionsState)))
            then UPDATE else CREATE)
     \<and> publishMessage
          (u_state (snd (u_loadPublishModeState (Fulfilled (Some revisionsState)) during vm)))
         = Some (if sublist ''Differential Revision:'' (description (last (revisions revisionsState)))
                 then [] else description (last (revisions revisionsState)))"
  using assms
  by (simp add: u_loadPublishModeState_def u_loadPublishModeState_start_def
        u_loadPublishModeState_resume_def getActiveRevisionsState_def Let_def
        u_setState_fields perform_fields indexOf_found last_conv_nth UPDATE_REVISION_TEMPLATE_def)

theorem loadPublishModeState_decides_mode_witness:
  "u_activeRepositoryStack exampleModel = Some (exampleStack 1 2)
   \<and> revisions \<lparr>revisions =
        [\<lparr>hash = ''a1'', bookmarks = [], description = ''First''\<rparr>,
         \<lparr>hash = ''b2'', bookmarks = [], description = ''Fix. Differential Revision: D1''\<rparr>]\<rparr> \<noteq> []
   \<and> publishMode (u_state (snd (u_loadPublishModeState
        (Fulfilled (Some \<lparr>revisions =
          [\<lparr>hash = ''a1'', bookmarks = [], description = ''First''\<rparr>,
           \<lparr>hash = ''b2'', bookmarks = [], description = ''Fix. Differential Revision: D1''\<rparr>]\<rparr>))
        id exampleModel))) = UPDATE
   \<and> publishMessage (u_state (snd (u_loadPublishModeState
        (Fulfilled (Some \<lparr>revisions =
          [\<lparr>hash = ''a1'', bookmarks = [], description = ''First''\<rparr>,
           \<lparr>hash = ''b2'', bookmarks = [], description = ''Fix. Differential Revision: D1''\<rparr>]\<rparr>))
        id exampleModel))) = Some []"
proof -
  let ?rs = "\<lparr>revisions =
        [\<lparr>hash = ''a1'', bookmarks = [], description = ''First''\<rparr>,
         \<lparr>hash = ''b2'', bookmarks = [], description = ''Fix. Differential Revision: D1''\<rparr>]\<rparr>"
  have a: "u_activeRepositoryStack exampleModel = Some (exampleStack 1 2)"
    by (simp add: exampleModel_def)
  have n: "revisions ?rs \<noteq> []" by simp
  have d: "description (last (revisions ?rs)) = ''Fix. '' @ ''Differential Revision:'' @ '' D1''"
    by simp
  have s: "sublist ''Differential Revision:'' (description (last (revisions ?rs)))"
    by (subst d) (rule sublist_appendI)
  from loadPublishModeState_decides_mode [OF a n, of id] s a n show ?thesis
    by (simp del: One_nat_def)
qed


subsection \<open>What a run of \<^verbatim>\<open>_updateRepositories\<close> does\<close>

lemma updateRepositories_char:
  assumes wf: "stacksWellFormed vm"
  shows "\<exists>vm' new.
       u_updateRepositories env vm = Normal vm'
     \<and> fst ` set (u_repositoryStacks vm') = {r. projectHgRepository env r}
     \<and> stacksWellFormed vm'
     \<and> effects vm' = effects vm @ new
     \<and> disposedStacks new
         = map snd (filter (\<lambda>en. \<not> projectHgRepository env (fst en)) (u_repositoryStacks vm))
     \<and> map Some (disposedSubscriptions new)
         = map (\<lambda>en. jsmap_get (u_repositorySubscriptions vm) (fst en))
             (filter (\<lambda>en. \<not> projectHgRepository env (fst en)) (u_repositoryStacks vm))
     \<and> distinct (map stackRepository (createdStacks new))
     \<and> set (map stackRepository (createdStacks new))
         = {r. projectHgRepository env r \<and> \<not> jsmap_has (u_repositoryStacks vm) r}
     \<and> (\<forall>st\<in>set (createdStacks new).
           jsmap_get (u_repositoryStacks vm') (stackRepository st) = Some st)
     \<and> (\<forall>r st. projectHgRepository env r \<longrightarrow>
           jsmap_get (u_repositoryStacks vm) r = Some st \<longrightarrow>
           jsmap_get (u_repositoryStacks vm') r = Some st)"
proof -
  define R where "R = hgRepositories env"
  have R_set: "\<And>r. (r \<in> set R) = projectHgRepository env r"
    using set_has_hgRepositories [of env] by (simp add: R_def set_has_def)
  have R_distinct: "distinct R" by (simp add: R_def hgRepositories_distinct)
  let ?stacks = "u_repositoryStacks vm" and ?subs = "u_repositorySubscriptions vm"
  from wf have d_stacks: "distinct (map fst ?stacks)" and d_subs: "distinct (map fst ?subs)"
    and keys: "fst ` set ?stacks = fst ` set ?subs"
    by (simp_all add: stacksWellFormed_def)
  let ?removed = "filter (\<lambda>en. fst en \<notin> set R) ?stacks"
  from disposeRemoved_char [OF d_stacks, of vm R] keys obtain vm1 where vm1:
    "disposeRemoved R ?stacks vm = Normal vm1"
    "u_repositoryStacks vm1
       = filter (\<lambda>en. fst en \<in> set R \<or> fst en \<notin> fst ` set ?stacks) ?stacks"
    "u_repositorySubscriptions vm1
       = filter (\<lambda>en. fst en \<in> set R \<or> fst en \<notin> fst ` set ?stacks) ?subs"
    "effects vm1 = effects vm @ disposals ?subs ?removed"
    by auto
  have st1: "u_repositoryStacks vm1 = filter (\<lambda>en. fst en \<in> set R) ?stacks"
    unfolding vm1(2) by (rule filter_cong [OF refl]) auto
  have sb1: "u_repositorySubscriptions vm1 = filter (\<lambda>en. fst en \<in> set R) ?subs"
    unfolding vm1(3) keys by (rule filter_cong [OF refl]) auto
  have k1: "fst ` set (u_repositoryStacks vm1) = fst ` set ?stacks \<inter> set R"
    unfolding st1 by force
  have ks1: "fst ` set (u_repositorySubscriptions vm1) = fst ` set ?stacks \<inter> set R"
    unfolding sb1 keys by force
  define vm2 where "vm2 = createMissing R vm1"
  define vm' where "vm' = u_updateDirtyChangedStatus env vm2"
  have res: "u_updateRepositories env vm = Normal vm'"
    by (simp add: u_updateRepositories_def Let_def vm1(1) vm2_def vm'_def flip: R_def)
  have st': "u_repositoryStacks vm' = u_repositoryStacks vm2"
    and sb': "u_repositorySubscriptions vm' = u_repositorySubscriptions vm2"
    and ef': "effects vm' = effects vm2 @ [Emit DID_UPDATE_STATE_EVENT]"
    by (simp_all add: vm'_def updateDirty_fields)
  have keys': "fst ` set (u_repositoryStacks vm') = set R"
    unfolding st' vm2_def createMissing_keys k1 by auto
  have skeys': "fst ` set (u_repositorySubscriptions vm') = set R"
    unfolding sb' vm2_def createMissing_subscriptions_keys k1 ks1 by auto
  have "distinct (map fst (u_repositoryStacks vm1))"
    unfolding st1 using d_stacks by (simp add: distinct_map_filter)
  then have d': "distinct (map fst (u_repositoryStacks vm'))"
    unfolding st' vm2_def by (rule createMissing_distinct)
  have "distinct (map fst (u_repositorySubscriptions vm1))"
    unfolding sb1 using d_subs by (simp add: distinct_map_filter)
  then have ds': "distinct (map fst (u_repositorySubscriptions vm'))"
    unfolding sb' vm2_def by (rule createMissing_subscriptions_distinct)
  have wf': "stacksWellFormed vm'"
    by (simp add: stacksWellFormed_def d' ds' keys' skeys')
  from createMissing_effects [OF R_distinct, of vm1] obtain new where new:
    "effects vm2 = effects vm1 @ new"
    "map stackRepository (createdStacks new)
       = filter (\<lambda>r. r \<notin> fst ` set (u_repositoryStacks vm1)) R"
    "disposedStacks new = []" "disposedSubscriptions new = []"
    "\<forall>st\<in>set (createdStacks new).
       map_of (u_repositoryStacks vm2) (stackRepository st) = Some st"
    unfolding vm2_def by blast
  let ?all = "disposals ?subs ?removed @ new @ [Emit DID_UPDATE_STATE_EVENT]"
  have eff: "effects vm' = effects vm @ ?all"
    by (simp add: ef' new(1) vm1(4))
  have rem_eq: "?removed = filter (\<lambda>en. \<not> projectHgRepository env (fst en)) ?stacks"
    by (rule filter_cong [OF refl]) (simp add: R_set)
  have dS: "disposedStacks ?all = map snd ?removed"
    by (simp add: disposedStacks_append disposals_read new(3))
  have "map Some (map (\<lambda>en. the (map_of ?subs (fst en))) ?removed)
      = map (\<lambda>en. jsmap_get ?subs (fst en)) ?removed"
  proof -
    have "\<And>en. en \<in> set ?removed \<Longrightarrow> map_of ?subs (fst en) \<noteq> None"
      using keys by (auto simp: map_of_eq_None_iff)
    then show ?thesis by (auto simp: jsmap_get_def)
  qed
  then have dSub: "map Some (disposedSubscriptions ?all)
      = map (\<lambda>en. jsmap_get ?subs (fst en)) ?removed"
    by (simp add: disposedSubscriptions_append disposals_read new(4))
  have cr: "map stackRepository (createdStacks ?all)
      = filter (\<lambda>r. r \<notin> fst ` set (u_repositoryStacks vm1)) R"
    by (simp add: createdStacks_append disposals_read new(2))
  have cr_distinct: "distinct (map stackRepository (createdStacks ?all))"
    unfolding cr using R_distinct by simp
  have cr_set: "set (map stackRepository (createdStacks ?all))
      = {r. projectHgRepository env r \<and> \<not> jsmap_has ?stacks r}"
    unfolding cr k1 by (auto simp: R_set jsmap_has_def)
  have cr_in: "\<forall>st\<in>set (createdStacks ?all).
      jsmap_get (u_repositoryStacks vm') (stackRepository st) = Some st"
    using new(5) by (simp add: createdStacks_append disposals_read st' jsmap_get_def)
  have kept: "\<forall>r st. projectHgRepository env r \<longrightarrow>
           jsmap_get ?stacks r = Some st \<longrightarrow>
           jsmap_get (u_repositoryStacks vm') r = Some st"
  proof (intro allI impI)
    fix r st
    assume r: "projectHgRepository env r" and g: "jsmap_get ?stacks r = Some st"
    from r have "r \<in> set R" by (simp add: R_set)
    then have "map_of (u_repositoryStacks vm1) r = map_of ?stacks r"
      unfolding st1 by (rule map_of_filter_keep [where P = "\<lambda>k. k \<in> set R"])
    with g have "map_of (u_repositoryStacks vm1) r = Some st" by (simp add: jsmap_get_def)
    then show "jsmap_get (u_repositoryStacks vm') r = Some st"
      unfolding st' vm2_def jsmap_get_def by (rule createMissing_kept)
  qed
  have keys'': "fst ` set (u_repositoryStacks vm') = {r. projectHgRepository env r}"
    unfolding keys' using R_set by auto
  show ?thesis
    apply (rule exI [of _ vm'])
    apply (rule exI [of _ "disposals (u_repositorySubscriptions vm) (filter (\<lambda>en. fst en \<notin> set R) (u_repositoryStacks vm)) @ new @ [Emit DID_UPDATE_STATE_EVENT]"])
    apply (intro conjI res keys'' wf' eff cr_distinct cr_set cr_in kept)
     apply (subst dS, simp only: rem_eq)
    apply (subst dSub, simp only: rem_eq)
    done
qed

subsection \<open>The two maps stay maps on the same keys\<close>

lemma sameMaps_wf: "sameMaps vm' vm \<Longrightarrow> stacksWellFormed vm \<Longrightarrow> stacksWellFormed vm'"
  by (simp add: sameMaps_def stacksWellFormed_def)

lemma sameMaps_refl: "sameMaps vm vm"
  by (simp add: sameMaps_def)

lemma sameMaps_trans: "sameMaps c b \<Longrightarrow> sameMaps b a \<Longrightarrow> sameMaps c a"
  by (simp add: sameMaps_def)

lemma sameMaps_perform: "sameMaps (perform e vm) vm"
  by (simp add: sameMaps_def perform_fields)

lemma sameMaps_setState: "sameMaps (u_setState s vm) vm"
  by (simp add: sameMaps_def u_setState_fields)

lemma sameMaps_performAll: "sameMaps (performAll es vm) vm"
  by (induction es arbitrary: vm) (auto simp: sameMaps_def perform_fields)

lemma sameMaps_updateCompare: "sameMaps (u_updateCompareChangedStatus d c vm) vm"
  by (simp add: u_updateCompareChangedStatus_def Let_def sameMaps_setState)

lemma sameMaps_getActiveRevisionsState: "sameMaps (snd (getActiveRevisionsState cached vm)) vm"
  by (simp add: getActiveRevisionsState_def sameMaps_perform sameMaps_refl split: option.splits)

lemma sameMaps_loadLatest:
  "sameMaps (snd (u_loadActiveRepositoryLatestCommitMessage cached vm)) vm"
  using sameMaps_getActiveRevisionsState [of cached vm]
  by (auto simp: u_loadActiveRepositoryLatestCommitMessage_def Let_def sameMaps_refl
        split: prod.splits settled.splits option.splits)

lemma sameMaps_loadCommit_finally: "sameMaps (u_loadCommitModeState_finally m vm) vm"
  by (simp add: u_loadCommitModeState_finally_def sameMaps_setState)

lemma sameMaps_loadCommit_start:
  "sameMaps (started (u_loadCommitModeState_start cached vm)) vm"
proof -
  let ?vm1 = "u_setState ((u_state vm)\<lparr>commitModeState := LOADING_COMMIT_MESSAGE\<rparr>) vm"
  have 1: "sameMaps ?vm1 vm" by (rule sameMaps_setState)
  show ?thesis
    using sameMaps_loadLatest [of cached ?vm1] 1
    by (cases "u_loadActiveRepositoryLatestCommitMessage cached ?vm1")
       (auto simp: u_loadCommitModeState_start_def Let_def sameMaps_def perform_fields
          u_loadCommitModeState_finally_def u_setState_fields split: option.splits)
qed

lemma sameMaps_loadPublish_start:
  "sameMaps (started (u_loadPublishModeState_start cached vm)) vm"
proof -
  let ?vm1 = "u_setState ((u_state vm)\<lparr>publishMode := CREATE,
                 publishModeState := LOADING_PUBLISH_MESSAGE,
                 publishMessage := None, headRevision := None\<rparr>) vm"
  have 1: "sameMaps ?vm1 vm" by (rule sameMaps_setState)
  show ?thesis
    using sameMaps_getActiveRevisionsState [of cached ?vm1] 1
    by (cases "getActiveRevisionsState cached ?vm1")
       (auto simp: u_loadPublishModeState_start_def Let_def sameMaps_def)
qed

lemma sameMaps_loadModeState: "sameMaps (u_loadModeState cached vm) vm"
  by (simp add: u_loadModeState_def sameMaps_loadCommit_start sameMaps_loadPublish_start
        sameMaps_refl split: DiffModeType.splits)

lemma sameMaps_loadPublish_resume:
  "sameMaps (snd (u_loadPublishModeState_resume awaited vm)) vm"
  by (simp add: u_loadPublishModeState_resume_def Let_def sameMaps_setState sameMaps_refl
        split: settled.splits option.splits)

lemma sameMaps_commit_catch: "sameMaps (after (commit_catch e vm)) vm"
  by (cases e)
     (simp_all add: commit_catch_def Let_def sameMaps_def u_setState_fields perform_fields)

lemma stacksWellFormed_updateRepositories:
  assumes "stacksWellFormed vm"
  shows "stacksWellFormed (after (u_updateRepositories env vm))"
proof -
  from updateRepositories_char [OF assms, of env] obtain vm' where
    "u_updateRepositories env vm = Normal vm'" "stacksWellFormed vm'" by blast
  then show ?thesis by simp
qed

lemmas maps_kept =
  sameMaps_perform [unfolded sameMaps_def] sameMaps_setState [unfolded sameMaps_def]
  sameMaps_performAll [unfolded sameMaps_def] sameMaps_updateCompare [unfolded sameMaps_def]
  sameMaps_loadCommit_finally [unfolded sameMaps_def]
  sameMaps_loadCommit_start [unfolded sameMaps_def]
  sameMaps_loadPublish_start [unfolded sameMaps_def]
  sameMaps_loadModeState [unfolded sameMaps_def]
  sameMaps_loadPublish_resume [unfolded sameMaps_def]
  sameMaps_commit_catch [unfolded sameMaps_def]

lemma sameMaps_steps:
  "sameMaps (u_updateDirtyChangedStatus env vm) vm"
  "sameMaps (u_updateCommitMergeFileChanges env vm) vm"
  "sameMaps (setPublishMessage msg vm) vm"
  "sameMaps (setViewMode cached mode vm) vm"
  "sameMaps (setCommitMode cached cmode vm) vm"
  "sameMaps (started (u_setActiveRepositoryStack_start repositoryStack vm)) vm"
  "sameMaps (u_updateChangedRevisions cached repositoryStack revisionsState vm) vm"
  "sameMaps (u_loadCommitModeState_resume source loaded vm) vm"
  "sameMaps (publishDiff_start msg vm) vm"
  "sameMaps (publishDiff_finally msg vm) vm"
  "sameMaps (after (commit_resume activeStack cmode committed vm)) vm"
  "sameMaps (deactivate vm) vm"
proof -
  show "sameMaps (u_updateDirtyChangedStatus env vm) vm"
    by (simp add: u_updateDirtyChangedStatus_def sameMaps_updateCompare)
  show "sameMaps (u_updateCommitMergeFileChanges env vm) vm"
    by (simp add: u_updateCommitMergeFileChanges_def sameMaps_updateCompare)
  show "sameMaps (setPublishMessage msg vm) vm"
    by (simp add: setPublishMessage_def sameMaps_setState)
  show "sameMaps (setViewMode cached mode vm) vm"
    by (simp add: setViewMode_def Let_def sameMaps_def maps_kept)
  show "sameMaps (setCommitMode cached cmode vm) vm"
    by (simp add: setCommitMode_def sameMaps_def maps_kept)
  show "sameMaps (started (u_setActiveRepositoryStack_start repositoryStack vm)) vm"
    by (simp add: u_setActiveRepositoryStack_start_def sameMaps_def maps_kept)
  show "sameMaps (u_updateChangedRevisions cached repositoryStack revisionsState vm) vm"
    by (simp add: u_updateChangedRevisions_def u_onUpdateRevisionsState_def sameMaps_def
          maps_kept)
  show "sameMaps (u_loadCommitModeState_resume source loaded vm) vm"
    by (cases loaded; cases source)
       (simp_all add: u_loadCommitModeState_resume_def sameMaps_def maps_kept)
  show "sameMaps (publishDiff_start msg vm) vm"
    by (simp add: publishDiff_start_def sameMaps_setState)
  show "sameMaps (publishDiff_finally msg vm) vm"
    by (simp add: publishDiff_finally_def sameMaps_setState)
  show "sameMaps (after (commit_resume activeStack cmode committed vm)) vm"
    by (cases committed) (simp_all add: commit_resume_def Let_def sameMaps_def maps_kept)
  show "sameMaps (deactivate vm) vm"
    by (cases "u_activeRepositoryStack vm")
       (simp_all add: deactivate_def Let_def sameMaps_def maps_kept)
qed

lemma sameMaps_commit_start: "sameMaps (commit_started (commit_start msg vm)) vm"
  by (cases "u_activeRepositoryStack vm"; cases "commitMode (u_state vm)")
     (simp_all add: commit_start_def Let_def sameMaps_def maps_kept u_setState_fields)

lemma sameMaps_publishSettled: "sameMaps (u_loadModeState_publishSettled awaited vm) vm"
proof (cases "u_loadPublishModeState_resume awaited vm")
  case (Pair outcome vm1)
  with sameMaps_loadPublish_resume [of awaited vm] have "sameMaps vm1 vm" by simp
  with Pair show ?thesis
    by (cases outcome)
       (simp_all add: u_loadModeState_publishSettled_def sameMaps_def maps_kept)
qed

lemma stacksWellFormed_reachable: "reachable vm \<Longrightarrow> stacksWellFormed vm"
proof (induction rule: reachable.induct)
  case (constructed env vm)
  have "stacksWellFormed \<lparr>u_repositoryStacks = [], u_repositorySubscriptions = [],
        u_activeRepositoryStack = None, u_isActive = False, u_state = initialState,
        effects = [], allocated = 0\<rparr>"
    by (simp add: stacksWellFormed_def)
  from stacksWellFormed_updateRepositories [OF this, of env] constructed
  show ?case by (simp add: constructor_def)
next
  case (updateRepositories vm env)
  from updateRepositories.IH show ?case by (rule stacksWellFormed_updateRepositories)
next
  case (activate vm env)
  from updateRepositories_char [OF activate.IH, of env] obtain vm' where
    r: "u_updateRepositories env vm = Normal vm'" "stacksWellFormed vm'" by blast
  from r(2) have "stacksWellFormed (performAll (map StackActivate (jsmap_values (u_repositoryStacks vm')))
                   (vm'\<lparr>u_isActive := True\<rparr>))"
    by (simp add: stacksWellFormed_def maps_kept)
  with r(1) show ?case by (simp add: activate_def Let_def)
next
  case (dispose vm)
  show ?case by (simp add: dispose_def Let_def stacksWellFormed_def maps_kept)
next
  case (publishDiff_caught vm e)
  from sameMaps_perform publishDiff_caught.IH show ?case by (rule sameMaps_wf)
next
  case (commit_start vm msg)
  from sameMaps_commit_start commit_start.IH show ?case by (rule sameMaps_wf)
next
  case (loadPublishModeState_settled vm awaited)
  from sameMaps_publishSettled loadPublishModeState_settled.IH show ?case by (rule sameMaps_wf)
qed (erule sameMaps_wf [OF sameMaps_steps(1)] sameMaps_wf [OF sameMaps_steps(2)]
       sameMaps_wf [OF sameMaps_steps(3)] sameMaps_wf [OF sameMaps_steps(4)]
       sameMaps_wf [OF sameMaps_steps(5)] sameMaps_wf [OF sameMaps_steps(6)]
       sameMaps_wf [OF sameMaps_steps(7)] sameMaps_wf [OF sameMaps_steps(8)]
       sameMaps_wf [OF sameMaps_steps(9)] sameMaps_wf [OF sameMaps_steps(10)]
       sameMaps_wf [OF sameMaps_steps(11)] sameMaps_wf [OF sameMaps_steps(12)])+


subsection \<open>One stack for each repository (claim C7)\<close>

text \<open>
  Claim C7.  On an object whose two maps are maps on the same keys, as they are in
  every state of the object (lemma \<open>stacksWellFormed_reachable\<close>),
  \<^verbatim>\<open>_updateRepositories\<close> returns, and afterwards the keys of \<^verbatim>\<open>_repositoryStacks\<close> are
  exactly the \<^verbatim>\<open>hg\<close> repositories that the project reports, no repository is a key
  twice, and the two maps are again on the same keys.  The stacks it disposes are
  exactly the stacks of the repositories that are gone, each once, with the
  subscriptions of the same repositories; it creates exactly one stack for every
  repository that is new, and that stack is the one the map holds for the
  repository; the stack of a repository that stays is kept.
\<close>

theorem updateRepositories_one_stack_per_repository:
  assumes wf: "stacksWellFormed vm"
  shows "\<exists>vm' new.
       u_updateRepositories env vm = Normal vm'
     \<and> fst ` set (u_repositoryStacks vm') = {r. projectHgRepository env r}
     \<and> stacksWellFormed vm'
     \<and> effects vm' = effects vm @ new
     \<and> disposedStacks new
         = map snd (filter (\<lambda>en. \<not> projectHgRepository env (fst en)) (u_repositoryStacks vm))
     \<and> map Some (disposedSubscriptions new)
         = map (\<lambda>en. jsmap_get (u_repositorySubscriptions vm) (fst en))
             (filter (\<lambda>en. \<not> projectHgRepository env (fst en)) (u_repositoryStacks vm))
     \<and> distinct (map stackRepository (createdStacks new))
     \<and> set (map stackRepository (createdStacks new))
         = {r. projectHgRepository env r \<and> \<not> jsmap_has (u_repositoryStacks vm) r}
     \<and> (\<forall>st\<in>set (createdStacks new).
           jsmap_get (u_repositoryStacks vm') (stackRepository st) = Some st)
     \<and> (\<forall>r st. projectHgRepository env r \<longrightarrow>
           jsmap_get (u_repositoryStacks vm) r = Some st \<longrightarrow>
           jsmap_get (u_repositoryStacks vm') r = Some st)"
  using updateRepositories_char [OF wf, of env] .

lemma distinct_set_singleton:
  assumes "distinct xs" and "set xs = {a}"
  shows "xs = [a]"
proof (cases xs)
  case Nil
  with assms show ?thesis by simp
next
  case (Cons y ys)
  with assms have "y = a" and "set ys \<subseteq> {a}" and "a \<notin> set ys" by auto
  then have "ys = []" by (cases ys) auto
  with Cons \<open>y = a\<close> show ?thesis by simp
qed

theorem updateRepositories_one_stack_per_repository_witness:
  "stacksWellFormed exampleModel
   \<and> (\<exists>vm' new.
         u_updateRepositories exampleEnv exampleModel = Normal vm'
       \<and> fst ` set (u_repositoryStacks vm')
           = {\<lparr>repoId = 2, getType = ''hg''\<rparr>, \<lparr>repoId = 3, getType = ''hg''\<rparr>}
       \<and> effects vm' = effects exampleModel @ new
       \<and> disposedStacks new = [exampleStack 0 1]
       \<and> map stackRepository (createdStacks new) = [\<lparr>repoId = 3, getType = ''hg''\<rparr>])"
proof -
  have wf: "stacksWellFormed exampleModel"
    by (simp add: stacksWellFormed_def exampleModel_def)
  have hg: "\<And>r. projectHgRepository exampleEnv r
      = (r = \<lparr>repoId = 2, getType = ''hg''\<rparr> \<or> r = \<lparr>repoId = 3, getType = ''hg''\<rparr>)"
    by (auto simp: projectHgRepository_def exampleEnv_def)
  from updateRepositories_one_stack_per_repository [OF wf, of exampleEnv]
  obtain vm' new where r:
    "u_updateRepositories exampleEnv exampleModel = Normal vm'"
    "fst ` set (u_repositoryStacks vm') = {r. projectHgRepository exampleEnv r}"
    "effects vm' = effects exampleModel @ new"
    "disposedStacks new
       = map snd (filter (\<lambda>en. \<not> projectHgRepository exampleEnv (fst en))
                    (u_repositoryStacks exampleModel))"
    "distinct (map stackRepository (createdStacks new))"
    "set (map stackRepository (createdStacks new))
       = {r. projectHgRepository exampleEnv r \<and> \<not> jsmap_has (u_repositoryStacks exampleModel) r}"
    by blast
  have k: "fst ` set (u_repositoryStacks vm')
      = {\<lparr>repoId = 2, getType = ''hg''\<rparr>, \<lparr>repoId = 3, getType = ''hg''\<rparr>}"
    unfolding r(2) by (auto simp: hg)
  have d: "disposedStacks new = [exampleStack 0 1]"
    unfolding r(4) by (simp add: hg exampleModel_def)
  have "set (map stackRepository (createdStacks new)) = {\<lparr>repoId = 3, getType = ''hg''\<rparr>}"
    unfolding r(6) by (auto simp: hg exampleModel_def jsmap_has_def)
  with r(5) have c: "map stackRepository (createdStacks new) = [\<lparr>repoId = 3, getType = ''hg''\<rparr>]"
    by (rule distinct_set_singleton)
  show ?thesis
    by (intro conjI wf exI [of _ vm'] exI [of _ new] r(1) k r(3) d c)
qed

end
